theory Spec2Isabelle
  imports Main "HOL-Library.AList" "HOL-Library.Char_ord" "HOL-Library.List_Lexorder"
    "HOL-Library.Multiset"
begin

section \<open>Errors raised by the modelled code\<close>

text \<open>
  Every exception the modelled functions can raise is a constructor of \<open>error\<close>; a
  function that may raise returns \<open>error + 'a\<close>, with \<open>Inl\<close> for the exception.
\<close>

datatype error =
    KeyError
  | ValueError
  | AssertionError
  | DupeNotValidated
  | DupeFileNotFound
  | DupeIsDirectory
  | DupeIsSymLink
  | OSError

section \<open>LuTable (lutable.py)\<close>

text \<open>
  A \<open>LuTable\<close> wraps one Python dict \<open>_hashlu\<close> from hash to a deque of files. The dict
  is insertion ordered, so it is an association list: \<open>map_of\<close> is the lookup,
  \<open>AList.update\<close> is the item assignment (an existing key keeps its position, a new key
  goes to the end) and \<open>AList.delete\<close> is \<open>del\<close>/\<open>pop\<close>. A deque is a list.
\<close>

type_synonym ('k, 'v) lutable = "('k \<times> 'v list) list"

definition keys :: "('k, 'v) lutable \<Rightarrow> 'k list" where
  "keys t = map fst t"

text \<open>\<open>__getitem__\<close>: \<open>self._hashlu[key]\<close>, a \<open>KeyError\<close> on an absent key.\<close>

definition getitem :: "('k, 'v) lutable \<Rightarrow> 'k \<Rightarrow> error + 'v list" where
  "getitem t k = (case map_of t k of None \<Rightarrow> Inl KeyError | Some b \<Rightarrow> Inr b)"

text \<open>\<open>__contains__\<close>.\<close>

definition contains :: "('k, 'v) lutable \<Rightarrow> 'k \<times> 'v \<Rightarrow> bool" where
  "contains t x = (case map_of t (fst x) of None \<Rightarrow> False | Some b \<Rightarrow> snd x \<in> set b)"

text \<open>\<open>__iter__\<close>: the pairs in dict order, each bucket in deque order.\<close>

definition iter :: "('k, 'v) lutable \<Rightarrow> ('k \<times> 'v) list" where
  "iter t = concat (map (\<lambda>(h, b). map (Pair h) b) t)"

text \<open>\<open>__len__\<close>.\<close>

definition len :: "('k, 'v) lutable \<Rightarrow> nat" where
  "len t = sum_list (map (\<lambda>(h, b). length b) t)"

text \<open>
  Modelled from the spec: \<open>chain_values\<close> is called by \<open>dupetable.py\<close> but is not defined
  in the \<open>lutable.py\<close> at hand; following the iteration over \<open>(hash, path)\<close> pairs it
  yields the files of every bucket, in dict order.
\<close>

definition chain_values :: "('k, 'v) lutable \<Rightarrow> 'v list" where
  "chain_values t = concat (map snd t)"

text \<open>
  \<open>add\<close>: creates the bucket when the hash is new, then appends the file. There is no
  membership test before the append.
\<close>

definition add :: "'k \<times> 'v \<Rightarrow> ('k, 'v) lutable \<Rightarrow> ('k, 'v) lutable" where
  "add item t =
     (case map_of t (fst item) of
        None \<Rightarrow> AList.update (fst item) [snd item] t
      | Some b \<Rightarrow> AList.update (fst item) (b @ [snd item]) t)"

text \<open>
  \<open>discard\<close>: \<open>self._hashlu[x[0]]\<close> raises \<open>KeyError\<close> on an absent hash,
  \<open>deque.remove\<close> raises \<open>ValueError\<close> on an absent file and otherwise removes the first
  occurrence; an emptied bucket is popped.
\<close>

definition discard :: "'k \<times> 'v \<Rightarrow> ('k, 'v) lutable \<Rightarrow> error + ('k, 'v) lutable" where
  "discard x t =
     (case map_of t (fst x) of
        None \<Rightarrow> Inl KeyError
      | Some b \<Rightarrow>
          if snd x \<notin> set b then Inl ValueError
          else (let b' = remove1 (snd x) b in
                if b' = [] then Inr (AList.delete (fst x) t)
                else Inr (AList.update (fst x) b' t)))"

text \<open>\<open>ldel\<close>: deletes each listed key that is present.\<close>

definition ldel :: "'k list \<Rightarrow> ('k, 'v) lutable \<Rightarrow> ('k, 'v) lutable" where
  "ldel ks t = fold (\<lambda>k t'. if k \<in> set (keys t') then AList.delete k t' else t') ks t"

text \<open>\<open>__delitem__\<close>: \<open>del self._hashlu[key]\<close>, a \<open>KeyError\<close> on an absent key.\<close>

definition delitem :: "'k \<Rightarrow> ('k, 'v) lutable \<Rightarrow> error + ('k, 'v) lutable" where
  "delitem k t = (if k \<in> set (keys t) then Inr (AList.delete k t) else Inl KeyError)"

text \<open>
  \<open>lextend\<close>: \<open>other[key]\<close> raises \<open>KeyError\<close> when \<open>other\<close> lacks the key; otherwise
  the whole bucket of \<open>other\<close> is appended to the (possibly new) bucket of \<open>self\<close>.
\<close>

definition lextend :: "('k, 'v) lutable \<Rightarrow> 'k \<Rightarrow> ('k, 'v) lutable \<Rightarrow> error + ('k, 'v) lutable" where
  "lextend other k t =
     (case map_of other k of
        None \<Rightarrow> Inl KeyError
      | Some ob \<Rightarrow>
          (case map_of t k of
             None \<Rightarrow> Inr (AList.update k ([] @ ob) t)
           | Some b \<Rightarrow> Inr (AList.update k (b @ ob) t)))"

text \<open>\<open>__ior__\<close> of \<open>MutableSet\<close>: \<open>for value in it: self.add(value)\<close>.\<close>

definition ior :: "('k, 'v) lutable \<Rightarrow> ('k, 'v) lutable \<Rightarrow> ('k, 'v) lutable" where
  "ior t other = fold add (iter other) t"

section \<open>Paths and patterns\<close>

text \<open>
  A \<open>pathlib\<close> POSIX path is the list of its \<open>parts\<close>; an absolute path starts with the
  root, which is the part \<open>''/''\<close> or, for a path that begins with exactly two slashes, the
  part \<open>''//''\<close>. Paths compare as their part lists do (strings by code point), which is
  the order \<open>sorted\<close> uses on them.
\<close>

type_synonym path = "string list"

definition is_absolute :: "path \<Rightarrow> bool" where
  "is_absolute f = (f \<noteq> [] \<and> (hd f = ''/'' \<or> hd f = ''//''))"

text \<open>\<open>PurePath.name\<close>: the last part, or the empty string when only the anchor is left.\<close>

definition name :: "path \<Rightarrow> string" where
  "name f = (if length f = (if is_absolute f then 1 else 0) then [] else last f)"

text \<open>
  \<open>PurePath.is_relative_to\<close>: the parts of \<open>parent\<close> start the parts of the file; the
  empty path is no parent of an absolute path.
\<close>

definition is_relative_to :: "path \<Rightarrow> path \<Rightarrow> bool" where
  "is_relative_to f parent =
     (take (length parent) f = parent \<and> \<not> (parent = [] \<and> is_absolute f))"

text \<open>
  A compiled regular expression is used through \<open>search\<close> only, so it is the predicate
  \<open>string \<Rightarrow> bool\<close> that \<open>search\<close> computes (a pattern text that does not compile
  makes \<open>re.compile\<close> raise before any table is read; the model starts from a compiled
  pattern). The two patterns \<open>check_and_autoselect\<close>
  receives from \<open>dd3\<close> are \<open>"."\<close>, found in every string that has a character other
  than the newline, and \<open>"a^"\<close>, found in no string.
\<close>

type_synonym pattern = "string \<Rightarrow> bool"

definition search_dot :: pattern where
  "search_dot s = (\<exists>c \<in> set s. c \<noteq> CHR 0x0A)"

definition search_a_caret :: pattern where
  "search_a_caret s = False"

section \<open>The partition algorithm (dupetable.py)\<close>

text \<open>
  The two loops of \<open>dd3\<close> that distribute the pairs of a table over two new tables,
  \<open>add\<close>ing each pair to the first table when the test holds and to the second otherwise.
\<close>

fun split_by :: "('k \<times> 'v \<Rightarrow> bool) \<Rightarrow> ('k \<times> 'v) list \<Rightarrow>
    ('k, 'v) lutable \<times> ('k, 'v) lutable \<Rightarrow> ('k, 'v) lutable \<times> ('k, 'v) lutable" where
  "split_by P [] acc = acc"
| "split_by P (x # xs) (a, b) =
     split_by P xs (if P x then (add x a, b) else (a, add x b))"

text \<open>
  \<open>in_deldir_hashlu\<close> and \<open>outside_deldir_hashlu\<close>, the latter after the \<open>ldel\<close> of the
  hashes that have no file in \<open>deldir\<close>.
\<close>

definition scope_split :: "('k, path) lutable \<Rightarrow> path \<Rightarrow>
    ('k, path) lutable \<times> ('k, path) lutable" where
  "scope_split dupes deldir =
     (case split_by (\<lambda>(hsh, f). is_relative_to f deldir) (iter dupes) ([], []) of
        (in_deldir, outside) \<Rightarrow>
          (in_deldir, ldel [k \<leftarrow> keys outside. k \<notin> set (keys in_deldir)] outside))"

text \<open>\<open>match_pattern_hashlu\<close> and \<open>no_match_pattern_hashlu\<close>.\<close>

definition pattern_split :: "pattern \<Rightarrow> ('k, path) lutable \<Rightarrow>
    ('k, path) lutable \<times> ('k, path) lutable" where
  "pattern_split pat in_deldir =
     split_by (\<lambda>(hsh, f). pat (name f)) (iter in_deldir) ([], [])"

text \<open>
  The loop of the local-only branch: \<open>for key in keys_only_in_deltable: if
  len(deltable[key]) == 1: del deltable[key]\<close>.
\<close>

fun drop_singles :: "'k list \<Rightarrow> ('k, 'v) lutable \<Rightarrow> error + ('k, 'v) lutable" where
  "drop_singles [] d = Inr d"
| "drop_singles (key # ks) d =
     (case getitem d key of
        Inl e \<Rightarrow> Inl e
      | Inr b \<Rightarrow>
          if length b = 1
          then (case delitem key d of Inl e \<Rightarrow> Inl e | Inr d' \<Rightarrow> drop_singles ks d')
          else drop_singles ks d)"

text \<open>
  The choice of \<open>(deltable, keeptable)\<close> from the matches, the non-matches and the
  out-of-scope table, by \<open>match_deletions\<close> and \<open>dupes_global\<close>.
\<close>

definition select_tables :: "('k, 'v) lutable \<Rightarrow> ('k, 'v) lutable \<Rightarrow> ('k, 'v) lutable \<Rightarrow>
    bool \<Rightarrow> bool \<Rightarrow> error + (('k, 'v) lutable \<times> ('k, 'v) lutable)" where
  "select_tables match_t no_match_t outside match_deletions dupes_global =
     (if match_deletions then
        (if dupes_global then Inr (match_t, ior no_match_t outside)
         else (case drop_singles [k \<leftarrow> keys match_t. k \<notin> set (keys no_match_t)] match_t of
                 Inl e \<Rightarrow> Inl e
               | Inr d \<Rightarrow> Inr (d, no_match_t)))
      else
        (if dupes_global then Inr (ior no_match_t outside, match_t)
         else Inr (no_match_t, match_t)))"

text \<open>
  The inner loop of \<open>check_and_autoselect\<close> over the sorted files of the old bucket: the
  first file whose name the pattern finds is discarded from \<open>keeptable\<close>, the assertion
  \<open>len(keeptable[hsh]) > 0\<close> is evaluated (a \<open>KeyError\<close> when \<open>discard\<close> popped the
  hash), the file is added to \<open>deltable\<close>, and the loop breaks.
\<close>

fun select_first :: "pattern \<Rightarrow> 'k \<Rightarrow> path list \<Rightarrow>
    ('k, path) lutable \<times> ('k, path) lutable \<Rightarrow>
    error + (('k, path) lutable \<times> ('k, path) lutable)" where
  "select_first pat hsh [] (deltable, keeptable) = Inr (deltable, keeptable)"
| "select_first pat hsh (f # fs) (deltable, keeptable) =
     (if pat (name f) then
        (case discard (hsh, f) keeptable of
           Inl e \<Rightarrow> Inl e
         | Inr keeptable' \<Rightarrow>
             (case getitem keeptable' hsh of
                Inl e \<Rightarrow> Inl e
              | Inr b \<Rightarrow>
                  if length b > 0 then Inr (add (hsh, f) deltable, keeptable')
                  else Inl AssertionError))
      else select_first pat hsh fs (deltable, keeptable))"

text \<open>One pass of the outer loop of \<open>check_and_autoselect\<close>, for the hash \<open>hsh\<close>.\<close>

definition autoselect_step :: "pattern \<Rightarrow> ('k, path) lutable \<Rightarrow> 'k \<Rightarrow>
    ('k, path) lutable \<times> ('k, path) lutable \<Rightarrow>
    error + (('k, path) lutable \<times> ('k, path) lutable)" where
  "autoselect_step pat old_deltable hsh dk =
     (case dk of (deltable, keeptable) \<Rightarrow>
        if hsh \<notin> set (keys keeptable) then
          (case lextend deltable hsh keeptable of
             Inl e \<Rightarrow> Inl e
           | Inr keeptable' \<Rightarrow>
               (case getitem old_deltable hsh of
                  Inl e \<Rightarrow> Inl e
                | Inr vs \<Rightarrow> select_first pat hsh (sort vs) (ldel [hsh] deltable, keeptable')))
        else Inr (deltable, keeptable))"

fun autoselect_loop :: "pattern \<Rightarrow> ('k, path) lutable \<Rightarrow> 'k list \<Rightarrow>
    ('k, path) lutable \<times> ('k, path) lutable \<Rightarrow>
    error + (('k, path) lutable \<times> ('k, path) lutable)" where
  "autoselect_loop pat old_deltable [] dk = Inr dk"
| "autoselect_loop pat old_deltable (hsh # hs) dk =
     (case autoselect_step pat old_deltable hsh dk of
        Inl e \<Rightarrow> Inl e
      | Inr dk' \<Rightarrow> autoselect_loop pat old_deltable hs dk')"

text \<open>
  \<open>check_and_autoselect\<close>: \<open>old_deltable\<close> is the deep copy of \<open>deltable\<close> taken on
  entry, and the hashes are visited in sorted order.
\<close>

definition check_and_autoselect :: "('k::linorder, path) lutable \<Rightarrow> ('k, path) lutable \<Rightarrow>
    pattern \<Rightarrow> error + (('k, path) lutable \<times> ('k, path) lutable)" where
  "check_and_autoselect deltable keeptable autoselect_pattern =
     autoselect_loop autoselect_pattern deltable (sort (keys deltable)) (deltable, keeptable)"

text \<open>
  The tables \<open>(deltable, keeptable)\<close> that \<open>dd3\<close> hands to \<open>check_and_autoselect\<close>.
\<close>

definition dd3_tables :: "('k, path) lutable \<Rightarrow> path \<Rightarrow> pattern \<Rightarrow> bool \<Rightarrow> bool \<Rightarrow>
    error + (('k, path) lutable \<times> ('k, path) lutable)" where
  "dd3_tables dupes deldir pat match_deletions dupes_global =
     (case scope_split dupes deldir of
        (in_deldir, outside) \<Rightarrow>
          (case pattern_split pat in_deldir of
             (match_t, no_match_t) \<Rightarrow>
               select_tables match_t no_match_t outside match_deletions dupes_global))"

text \<open>\<open>dd3\<close>; the result is \<open>(deltable, keeptable)\<close>.\<close>

definition dd3 :: "('k::linorder, path) lutable \<Rightarrow> path \<Rightarrow> pattern \<Rightarrow> bool \<Rightarrow> bool \<Rightarrow> bool \<Rightarrow>
    error + (('k, path) lutable \<times> ('k, path) lutable)" where
  "dd3 dupes deldir pat match_deletions dupes_global autoselect =
     (case dd3_tables dupes deldir pat match_deletions dupes_global of
        Inl e \<Rightarrow> Inl e
      | Inr (deltable, keeptable) \<Rightarrow>
          check_and_autoselect deltable keeptable
            (if autoselect then search_dot else search_a_caret))"

section \<open>Validation and deletion (dupetable.py)\<close>

text \<open>
  The file system as \<open>validate\<close> sees it, through \<open>stat\<close> (which follows symbolic
  links) and \<open>lstat\<close> (which does not). A path is absent; or it is a regular file or a
  directory; or it is a symbolic link, which carries what \<open>stat\<close> gives through it: the
  link dangles or loops, or it resolves to a file or a directory, or \<open>stat\<close> fails on
  the way; or both calls fail on the path with an error that \<open>pathlib\<close> does not
  ignore (a name that is too long, a directory that may not be searched).

  \<open>Path.exists\<close>, \<open>Path.is_dir\<close> and \<open>Path.is_symlink\<close> answer \<open>False\<close> when the call
  fails with \<open>ENOENT\<close>, \<open>ENOTDIR\<close>, \<open>EBADF\<close> or \<open>ELOOP\<close>, and also when it raises
  \<open>ValueError\<close> (a path with a null character); every other \<open>OSError\<close> is raised again.
\<close>

datatype kind = Regular | Directory

datatype stat_result = Stat_Missing | Stat_Kind kind | Stat_Error

datatype node = Absent | Plain kind | Symlink stat_result | Failing

type_synonym filesystem = "path \<Rightarrow> node"

definition has_null :: "path \<Rightarrow> bool" where
  "has_null f = (\<exists>part \<in> set f. CHR 0x00 \<in> set part)"

definition node_of :: "filesystem \<Rightarrow> path \<Rightarrow> node" where
  "node_of fs f = (if has_null f then Absent else fs f)"

definition path_exists :: "filesystem \<Rightarrow> path \<Rightarrow> error + bool" where
  "path_exists fs f =
     (case node_of fs f of
        Absent \<Rightarrow> Inr False
      | Plain k \<Rightarrow> Inr True
      | Symlink Stat_Missing \<Rightarrow> Inr False
      | Symlink (Stat_Kind k) \<Rightarrow> Inr True
      | Symlink Stat_Error \<Rightarrow> Inl OSError
      | Failing \<Rightarrow> Inl OSError)"

definition is_dir :: "filesystem \<Rightarrow> path \<Rightarrow> error + bool" where
  "is_dir fs f =
     (case node_of fs f of
        Absent \<Rightarrow> Inr False
      | Plain k \<Rightarrow> Inr (k = Directory)
      | Symlink Stat_Missing \<Rightarrow> Inr False
      | Symlink (Stat_Kind k) \<Rightarrow> Inr (k = Directory)
      | Symlink Stat_Error \<Rightarrow> Inl OSError
      | Failing \<Rightarrow> Inl OSError)"

definition is_symlink :: "filesystem \<Rightarrow> path \<Rightarrow> error + bool" where
  "is_symlink fs f =
     (case node_of fs f of
        Absent \<Rightarrow> Inr False
      | Plain k \<Rightarrow> Inr False
      | Symlink t \<Rightarrow> Inr True
      | Failing \<Rightarrow> Inl OSError)"

text \<open>
  The state of a \<open>Dupetable\<close> object that \<open>validate\<close> and \<open>delete\<close> read.
\<close>

record 'k dupetable =
  dt_deltable :: "('k, path) lutable"
  dt_keeptable :: "('k, path) lutable"
  dt_deduped :: bool

text \<open>The first loop of \<open>validate\<close>, over the keys common to both tables.\<close>

fun check_common :: "'k list \<Rightarrow> ('k, path) lutable \<Rightarrow> ('k, path) lutable \<Rightarrow> error + unit" where
  "check_common [] keeptable deltable = Inr ()"
| "check_common (key # ks) keeptable deltable =
     (case getitem keeptable key of
        Inl e \<Rightarrow> Inl e
      | Inr set_keep \<Rightarrow>
          (case getitem deltable key of
             Inl e \<Rightarrow> Inl e
           | Inr set_delete \<Rightarrow>
               if \<not> (set set_keep \<inter> set set_delete = {}) then Inl DupeNotValidated
               else check_common ks keeptable deltable))"

text \<open>The second loop of \<open>validate\<close>, over the files of both tables.\<close>

fun check_files :: "filesystem \<Rightarrow> path list \<Rightarrow> error + unit" where
  "check_files fs [] = Inr ()"
| "check_files fs (file # files) =
     (case path_exists fs file of
        Inl e \<Rightarrow> Inl e
      | Inr ex \<Rightarrow>
          if \<not> ex then Inl DupeFileNotFound
          else (case is_dir fs file of
                  Inl e \<Rightarrow> Inl e
                | Inr d \<Rightarrow>
                    if d then Inl DupeIsDirectory
                    else (case is_symlink fs file of
                            Inl e \<Rightarrow> Inl e
                          | Inr l \<Rightarrow>
                              if l then Inl DupeIsSymLink
                              else check_files fs files)))"

text \<open>A file passes the three tests of the second loop.\<close>

definition passes :: "filesystem \<Rightarrow> path \<Rightarrow> bool" where
  "passes fs f =
     (path_exists fs f = Inr True \<and> is_dir fs f = Inr False \<and> is_symlink fs f = Inr False)"

definition validate :: "filesystem \<Rightarrow> 'k dupetable \<Rightarrow> error + unit" where
  "validate fs dt =
     (case check_common [k \<leftarrow> keys (dt_keeptable dt). k \<in> set (keys (dt_deltable dt))]
             (dt_keeptable dt) (dt_deltable dt) of
        Inl e \<Rightarrow> Inl e
      | Inr u \<Rightarrow> check_files fs (chain_values (dt_keeptable dt) @ chain_values (dt_deltable dt)))"

text \<open>
  What \<open>delete\<close> works on: the file system and the database behind \<open>PydupeDB\<close>. The
  database class is not part of the sources at hand, so its state is a type parameter,
  and the two things \<open>delete\<close> does with a validated file, \<open>move_file_to_trash\<close>
  followed by \<open>db.delete_file_lookup\<close>, and \<open>db.commit\<close>, are parameters of the model.
  A run ends with the exception raised, if any, and the state reached.
\<close>

record 'd world =
  filesys :: filesystem
  database :: 'd

type_synonym 'd file_step = "path \<Rightarrow> 'd world \<Rightarrow> error option \<times> 'd world"

text \<open>\<open>more_itertools.chunked\<close>: consecutive pieces of length \<open>n\<close>, the last one shorter.\<close>

function chunked :: "nat \<Rightarrow> 'a list \<Rightarrow> 'a list list" where
  "chunked n xs = (if n = 0 \<or> xs = [] then [] else take n xs # chunked n (drop n xs))"
  by pat_completeness auto
termination
  by (relation "measure (\<lambda>(n, xs). length xs)") auto

fun run_chunk :: "'d file_step \<Rightarrow> path list \<Rightarrow> 'd world \<Rightarrow> error option \<times> 'd world" where
  "run_chunk step [] w = (None, w)"
| "run_chunk step (delfile # chunk) w =
     (case step delfile w of
        (Some e, w') \<Rightarrow> (Some e, w')
      | (None, w') \<Rightarrow> run_chunk step chunk w')"

fun run_chunks :: "'d file_step \<Rightarrow> ('d world \<Rightarrow> 'd world) \<Rightarrow> path list list \<Rightarrow> 'd world \<Rightarrow>
    error option \<times> 'd world" where
  "run_chunks step commit [] w = (None, w)"
| "run_chunks step commit (chunk # chunks) w =
     (case run_chunk step chunk w of
        (Some e, w') \<Rightarrow> (Some e, w')
      | (None, w') \<Rightarrow> run_chunks step commit chunks (commit w'))"

text \<open>
  \<open>Dupetable.delete\<close>: the early return when there is nothing to delete and the object
  was not deduped, then \<open>validate\<close>, then the chunks of twenty files.
\<close>

definition delete :: "'d file_step \<Rightarrow> ('d world \<Rightarrow> 'd world) \<Rightarrow> 'k dupetable \<Rightarrow> 'd world \<Rightarrow>
    error option \<times> 'd world" where
  "delete step commit dt w =
     (if \<not> (len (dt_deltable dt) \<noteq> 0 \<or> dt_deduped dt) then (None, w)
      else (case validate (filesys w) dt of
              Inl e \<Rightarrow> (Some e, w)
            | Inr u \<Rightarrow> run_chunks step commit (chunked 20 (chain_values (dt_deltable dt))) w))"

section \<open>File records (data.py)\<close>

record 'f fparms =
  filename :: "string option"
  hash :: "string option"
  size :: "int option"
  inode :: "int option"
  mtime :: "'f option"
  ctime :: "'f option"

text \<open>
  \<open>valid_sha256.match\<close>, for the pattern \<open>^[a-f0-9]{64}(:.+)?$\<close> compiled with
  \<open>re.IGNORECASE\<close>: sixty-four characters of the class, in either case, then optionally
  a colon with at least one character, none of them a newline (\<open>.\<close> does not match it),
  and then the end, which \<open>$\<close> also finds just before one final newline.
\<close>

definition hex_class :: "char \<Rightarrow> bool" where
  "hex_class c = (c \<in> set ''abcdef0123456789'' \<or> c \<in> set ''ABCDEF'')"

definition match_tail :: "string \<Rightarrow> bool" where
  "match_tail r =
     (let r' = (if r \<noteq> [] \<and> last r = CHR 0x0A then butlast r else r) in
      r' = [] \<or> (hd r' = CHR '':'' \<and> tl r' \<noteq> [] \<and> CHR 0x0A \<notin> set (tl r')))"

definition valid_sha256_match :: "string \<Rightarrow> bool" where
  "valid_sha256_match s =
     (64 \<le> length s \<and> list_all hex_class (take 64 s) \<and> match_tail (drop 64 s))"

text \<open>\<open>checkHash\<close>; \<open>None\<close> and the empty string are both false in the test \<open>fp.hash and ...\<close>.\<close>

definition checkHash :: "'f fparms \<Rightarrow> error + unit" where
  "checkHash fp =
     (case hash fp of
        None \<Rightarrow> Inr ()
      | Some h \<Rightarrow> if h \<noteq> [] \<and> \<not> valid_sha256_match h then Inl ValueError else Inr ())"

text \<open>
  The digest format in the words of the specification: a fixed-length (sixty-four
  characters) lowercase hexadecimal string.
\<close>

definition lowercase_hex_digest :: "string \<Rightarrow> bool" where
  "lowercase_hex_digest s =
     (length s = 64 \<and> list_all (\<lambda>c. c \<in> set ''0123456789abcdef'') s)"

text \<open>
  What may follow the sixty-four digits of an accepted hash, said without the matcher:
  nothing, or a colon and a non-empty text free of newlines, and after either one final
  newline at most.
\<close>

definition digest_suffix :: "string \<Rightarrow> bool" where
  "digest_suffix r =
     (r = [] \<or> r = [CHR 0x0A] \<or>
      (\<exists>body. body \<noteq> [] \<and> CHR 0x0A \<notin> set body \<and>
         (r = CHR '':'' # body \<or> r = CHR '':'' # body @ [CHR 0x0A])))"

section \<open>Notions used to state the properties of the partition\<close>

text \<open>The bucket of a hash, empty when the hash is no key.\<close>

definition bucket :: "('k, 'v) lutable \<Rightarrow> 'k \<Rightarrow> 'v list" where
  "bucket t h = (case map_of t h of None \<Rightarrow> [] | Some b \<Rightarrow> b)"

text \<open>
  What every table built by \<open>add\<close> satisfies: the keys of the dict are distinct and no
  bucket is empty.
\<close>

definition table_ok :: "('k, 'v) lutable \<Rightarrow> bool" where
  "table_ok t = (distinct (map fst t) \<and> [] \<notin> snd ` set t)"

text \<open>The files a list of pairs gives for one hash, in order.\<close>

definition paths_of :: "'k \<Rightarrow> ('k \<times> 'v) list \<Rightarrow> 'v list" where
  "paths_of h xs = map snd (filter (\<lambda>x. fst x = h) xs)"

text \<open>
  The file the inner loop of \<open>check_and_autoselect\<close> stops at for a bucket \<open>b\<close>: the
  first of the sorted files whose name the pattern finds.
\<close>

definition autoselected :: "pattern \<Rightarrow> path list \<Rightarrow> path option" where
  "autoselected pat b = List.find (\<lambda>f. pat (name f)) (sort b)"

section \<open>Properties of LuTable\<close>

lemma iter_Nil: "iter [] = []"
  by (simp add: iter_def)

lemma iter_Cons: "iter ((k, b) # t) = map (Pair k) b @ iter t"
  by (simp add: iter_def)

lemma remove1_map_Pair: "remove1 (h, p) (map (Pair h) b) = map (Pair h) (remove1 p b)"
  by (induction b) auto

lemma keys_iff_map_of: "k \<in> set (keys t) \<longleftrightarrow> map_of t k \<noteq> None"
  by (simp add: keys_def map_of_eq_None_iff)

lemma iter_discard_aux:
  "distinct (map fst t) \<Longrightarrow> map_of t h = Some b \<Longrightarrow> p \<in> set b \<Longrightarrow>
   iter (if remove1 p b = [] then AList.delete h t else AList.update h (remove1 p b) t)
     = remove1 (h, p) (iter t)"
proof (induction t)
  case Nil
  then show ?case by simp
next
  case (Cons a t)
  obtain k c where a: "a = (k, c)" by (cases a)
  show ?case
  proof (cases "k = h")
    case True
    with Cons.prems a have cb: "c = b" and hn: "h \<notin> fst ` set t" by auto
    have del: "AList.delete h t = t" using hn by (rule delete_id)
    have "(h, p) \<in> set (map (Pair h) b)" using Cons.prems(3) by simp
    then have "remove1 (h, p) (map (Pair h) b @ iter t) = map (Pair h) (remove1 p b) @ iter t"
      by (simp add: remove1_append remove1_map_Pair del: set_map)
    then show ?thesis using True a cb del by (simp add: iter_Cons iter_Nil)
  next
    case False
    with Cons.prems a have m: "map_of t h = Some b" and d: "distinct (map fst t)" by auto
    have "remove1 (h, p) (map (Pair k) c @ iter t) = map (Pair k) c @ remove1 (h, p) (iter t)"
      using False by (simp add: remove1_append del: set_map) auto
    then show ?thesis using False a Cons.IH[OF d m Cons.prems(3)]
      by (simp add: iter_Cons split: if_splits)
  qed
qed

lemma set_iter: "set (iter t) = {(h, p). \<exists>b. (h, b) \<in> set t \<and> p \<in> set b}"
  by (induction t) (auto simp: iter_Nil iter_Cons)

lemma key_in_iter: "h \<in> fst ` set (iter t) \<longleftrightarrow> (\<exists>b. (h, b) \<in> set t \<and> b \<noteq> [])"
proof
  assume "h \<in> fst ` set (iter t)"
  then obtain p where "(h, p) \<in> set (iter t)" by auto
  then show "\<exists>b. (h, b) \<in> set t \<and> b \<noteq> []" by (auto simp: set_iter)
next
  assume "\<exists>b. (h, b) \<in> set t \<and> b \<noteq> []"
  then obtain b where b: "(h, b) \<in> set t" "b \<noteq> []" by blast
  then obtain p where "p \<in> set b" by (cases b) auto
  with b have "(h, p) \<in> set (iter t)" by (auto simp: set_iter)
  then show "h \<in> fst ` set (iter t)" by force
qed

lemma iter_keys_subset: "fst ` set (iter t) \<subseteq> set (keys t)"
  by (auto simp: set_iter keys_def image_iff) force

text \<open>
  Claim C10. \<open>discard\<close> is no silent no-op on an absent pair: on a table whose dict keys
  are distinct, a hash that is no key raises \<open>KeyError\<close>; a hash that is a key whose
  bucket lacks the file raises \<open>ValueError\<close>; and a pair that is present is removed
  (one occurrence of it, every other pair staying in place), the hash staying a key
  exactly when a pair of that hash is left.
\<close>

theorem discard_absent_raises_present_removed:
  assumes "distinct (keys t)"
  shows "(fst x \<notin> set (keys t) \<longrightarrow> discard x t = Inl KeyError) \<and>
         (fst x \<in> set (keys t) \<and> \<not> contains t x \<longrightarrow> discard x t = Inl ValueError) \<and>
         (contains t x \<longrightarrow>
            (\<exists>t'. discard x t = Inr t' \<and> iter t' = remove1 x (iter t) \<and> distinct (keys t') \<and>
               (fst x \<in> set (keys t') \<longleftrightarrow> fst x \<in> fst ` set (iter t'))))"
proof (intro conjI impI)
  assume "fst x \<notin> set (keys t)"
  then show "discard x t = Inl KeyError"
    by (simp add: discard_def keys_iff_map_of)
next
  assume "fst x \<in> set (keys t) \<and> \<not> contains t x"
  then show "discard x t = Inl ValueError"
    by (auto simp: discard_def keys_iff_map_of contains_def)
next
  assume c: "contains t x"
  then obtain b where m: "map_of t (fst x) = Some b" and p: "snd x \<in> set b"
    by (auto simp: contains_def split: option.splits)
  define t' where
    "t' = (if remove1 (snd x) b = [] then AList.delete (fst x) t
           else AList.update (fst x) (remove1 (snd x) b) t)"
  have d: "discard x t = Inr t'"
    using m p by (simp add: discard_def t'_def Let_def)
  have dt: "distinct (map fst t)" using assms by (simp add: keys_def)
  have i: "iter t' = remove1 x (iter t)"
    using iter_discard_aux[OF dt m p] by (simp add: t'_def)
  have dk: "distinct (keys t')"
    using dt by (simp add: t'_def keys_def distinct_update distinct_delete)
  have k: "fst x \<in> set (keys t') \<longleftrightarrow> fst x \<in> fst ` set (iter t')"
  proof (cases "remove1 (snd x) b = []")
    case True
    then have "fst x \<notin> set (keys t')"
      by (simp add: t'_def keys_def delete_notin_dom)
    moreover have "fst ` set (iter t') \<subseteq> set (keys t')" by (rule iter_keys_subset)
    ultimately show ?thesis by blast
  next
    case False
    have dt': "distinct (map fst t')" using dk by (simp add: keys_def)
    have "map_of t' (fst x) = Some (remove1 (snd x) b)"
      using False by (simp add: t'_def update_conv')
    then have "(fst x, remove1 (snd x) b) \<in> set t'"
      by (rule map_of_SomeD)
    then have "fst x \<in> fst ` set (iter t')"
      using False key_in_iter[of "fst x" t'] by blast
    then show ?thesis using iter_keys_subset[of t'] by blast
  qed
  from d i dk k
  show "\<exists>t'. discard x t = Inr t' \<and> iter t' = remove1 x (iter t) \<and> distinct (keys t') \<and>
      (fst x \<in> set (keys t') \<longleftrightarrow> fst x \<in> fst ` set (iter t'))"
    by blast
qed

theorem discard_absent_raises_present_removed_witness:
  "distinct (keys [(''h1'', [''p'', ''q'']), (''h2'', [''r''])]) \<and>
   discard (''h3'', ''p'') [(''h1'', [''p'', ''q'']), (''h2'', [''r''])] = Inl KeyError \<and>
   discard (''h2'', ''p'') [(''h1'', [''p'', ''q'']), (''h2'', [''r''])] = Inl ValueError \<and>
   contains [(''h1'', [''p'', ''q'']), (''h2'', [''r''])] (''h2'', ''r'') \<and>
   (\<exists>t'. discard (''h2'', ''r'') [(''h1'', [''p'', ''q'']), (''h2'', [''r''])] = Inr t' \<and>
      iter t' = remove1 (''h2'', ''r'') (iter [(''h1'', [''p'', ''q'']), (''h2'', [''r''])]) \<and>
      ''h2'' \<notin> set (keys t'))"
proof -
  let ?t = "[(''h1'', [''p'', ''q'']), (''h2'', [''r''])]"
  have d: "distinct (keys ?t)" by (simp add: keys_def)
  have c: "contains ?t (''h2'', ''r'')" by (simp add: contains_def)
  have e: "discard (''h2'', ''r'') ?t = Inr [(''h1'', [''p'', ''q''])]"
    by (simp add: discard_def)
  from discard_absent_raises_present_removed[OF d, of "(''h3'', ''p'')"]
  have 1: "discard (''h3'', ''p'') ?t = Inl KeyError" by (simp add: keys_def)
  from discard_absent_raises_present_removed[OF d, of "(''h2'', ''p'')"]
  have 2: "discard (''h2'', ''p'') ?t = Inl ValueError" by (simp add: keys_def contains_def)
  from discard_absent_raises_present_removed[OF d, of "(''h2'', ''r'')"] c
  have "\<exists>t'. discard (''h2'', ''r'') ?t = Inr t' \<and>
      iter t' = remove1 (''h2'', ''r'') (iter ?t) \<and> distinct (keys t') \<and>
      (''h2'' \<in> set (keys t') \<longleftrightarrow> ''h2'' \<in> fst ` set (iter t'))"
    by simp
  then have 3: "\<exists>t'. discard (''h2'', ''r'') ?t = Inr t' \<and>
      iter t' = remove1 (''h2'', ''r'') (iter ?t) \<and> ''h2'' \<notin> set (keys t')"
    using e by (auto simp: keys_def)
  from d 1 2 c 3 show ?thesis by blast
qed

text \<open>
  Claim C6. \<open>add\<close> is not idempotent in the code: adding a pair the table already
  contains appends the file once more, so the pair is then repeated in its bucket and
  counted twice by \<open>len\<close>.
\<close>

theorem add_repeats_present_pair:
  "contains [(''h'', [''/a/x''])] (''h'', ''/a/x'') \<and>
   add (''h'', ''/a/x'') [(''h'', [''/a/x''])] = [(''h'', [''/a/x'', ''/a/x''])] \<and>
   len (add (''h'', ''/a/x'') [(''h'', [''/a/x''])]) = 2"
  by (simp add: contains_def add_def len_def)

section \<open>Properties of checkHash\<close>

lemma match_tail_iff: "match_tail r = digest_suffix r"
proof (cases "r \<noteq> [] \<and> last r = CHR 0x0A")
  case True
  then obtain r0 where r: "r = r0 @ [CHR 0x0A]"
    by (metis append_butlast_last_id)
  show ?thesis
  proof (cases r0)
    case Nil
    with r show ?thesis by (simp add: match_tail_def digest_suffix_def)
  next
    case (Cons c body)
    have "digest_suffix r = (c = CHR '':'' \<and> body \<noteq> [] \<and> CHR 0x0A \<notin> set body)"
      using r Cons unfolding digest_suffix_def by auto
    then show ?thesis using r Cons by (simp add: match_tail_def)
  qed
next
  case False
  show ?thesis
  proof (cases r)
    case Nil
    then show ?thesis by (simp add: match_tail_def digest_suffix_def)
  next
    case (Cons c body)
    with False have l: "last (c # body) \<noteq> CHR 0x0A" by simp
    have "digest_suffix r = (c = CHR '':'' \<and> body \<noteq> [] \<and> CHR 0x0A \<notin> set body)"
      using Cons l unfolding digest_suffix_def by auto
    then show ?thesis using False Cons by (simp add: match_tail_def)
  qed
qed

lemma valid_sha256_match_iff:
  "valid_sha256_match s =
     (\<exists>d r. s = d @ r \<and> length d = 64 \<and> list_all hex_class d \<and> digest_suffix r)"
proof
  assume "valid_sha256_match s"
  then have "s = take 64 s @ drop 64 s \<and> length (take 64 s) = 64 \<and>
      list_all hex_class (take 64 s) \<and> digest_suffix (drop 64 s)"
    by (simp add: valid_sha256_match_def match_tail_iff)
  then show "\<exists>d r. s = d @ r \<and> length d = 64 \<and> list_all hex_class d \<and> digest_suffix r"
    by blast
next
  assume "\<exists>d r. s = d @ r \<and> length d = 64 \<and> list_all hex_class d \<and> digest_suffix r"
  then show "valid_sha256_match s"
    by (auto simp: valid_sha256_match_def match_tail_iff)
qed

lemma lower_hex_class: "c \<in> set ''0123456789abcdef'' \<Longrightarrow> hex_class c"
  unfolding hex_class_def by auto

lemma lowercase_valid: "lowercase_hex_digest h \<Longrightarrow> valid_sha256_match h"
proof -
  assume a: "lowercase_hex_digest h"
  then have l: "length h = 64" by (simp add: lowercase_hex_digest_def)
  from a have "list_all hex_class h"
    unfolding lowercase_hex_digest_def list_all_iff using lower_hex_class by blast
  moreover have "match_tail []" by (simp add: match_tail_def)
  ultimately show ?thesis using l by (simp add: valid_sha256_match_def)
qed

text \<open>
  Claim C9, as the code has it. \<open>checkHash\<close> returns or raises \<open>ValueError\<close>, nothing
  else. It returns exactly when the hash is absent, or is the empty string, or is
  sixty-four hexadecimal digits of either case followed by an admissible suffix (see
  \<open>digest_suffix\<close>). In particular every sixty-four character lowercase hexadecimal
  digest is accepted.
\<close>

theorem checkHash_accepts:
  "(checkHash fp = Inr () \<or> checkHash fp = Inl ValueError) \<and>
   (checkHash fp = Inr () \<longleftrightarrow>
      (hash fp = None \<or> hash fp = Some [] \<or>
       (\<exists>d r. hash fp = Some (d @ r) \<and> length d = 64 \<and> list_all hex_class d \<and>
          digest_suffix r))) \<and>
   (\<forall>h. hash fp = Some h \<and> lowercase_hex_digest h \<longrightarrow> checkHash fp = Inr ())"
proof (cases "hash fp")
  case None
  then show ?thesis by (simp add: checkHash_def)
next
  case (Some h)
  have "checkHash fp = Inr () \<longleftrightarrow> h = [] \<or> valid_sha256_match h"
    using Some by (simp add: checkHash_def)
  moreover have "checkHash fp = Inr () \<or> checkHash fp = Inl ValueError"
    using Some by (simp add: checkHash_def)
  ultimately show ?thesis using Some lowercase_valid[of h]
    by (auto simp: valid_sha256_match_iff)
qed

theorem checkHash_accepts_witness:
  "checkHash \<lparr>filename = Some ''/a/x'',
      hash = Some ''E3B0C44298FC1C149AFBF4C8996FB92427AE41E4649B934CA495991B7852B855:x'',
      size = Some 0, inode = Some 1, mtime = Some (0::int), ctime = Some 0\<rparr> = Inr () \<and>
   (\<exists>d r. ''E3B0C44298FC1C149AFBF4C8996FB92427AE41E4649B934CA495991B7852B855:x'' = d @ r \<and>
      length d = 64 \<and> list_all hex_class d \<and> digest_suffix r)"
proof -
  let ?fp = "\<lparr>filename = Some ''/a/x'',
      hash = Some ''E3B0C44298FC1C149AFBF4C8996FB92427AE41E4649B934CA495991B7852B855:x'',
      size = Some 0, inode = Some 1, mtime = Some (0::int), ctime = Some 0\<rparr>"
  have e: "checkHash ?fp = Inr ()" by code_simp
  from checkHash_accepts[of ?fp] e show ?thesis by simp
qed

text \<open>
  The claim as written fails: a digest in upper case is no lowercase digest, and
  \<open>checkHash\<close> returns normally on it.
\<close>

theorem checkHash_uppercase_accepted:
  "checkHash \<lparr>filename = Some ''/a/x'',
      hash = Some ''E3B0C44298FC1C149AFBF4C8996FB92427AE41E4649B934CA495991B7852B855'',
      size = Some 0, inode = Some 1, mtime = Some (0::int), ctime = Some 0\<rparr> = Inr () \<and>
   \<not> lowercase_hex_digest ''E3B0C44298FC1C149AFBF4C8996FB92427AE41E4649B934CA495991B7852B855''"
  by code_simp

section \<open>Properties of validation and deletion\<close>

lemma contains_bucket: "contains t x \<longleftrightarrow> snd x \<in> set (bucket t (fst x))"
  by (simp add: contains_def bucket_def split: option.splits)

lemma bucket_member_key: "p \<in> set (bucket t h) \<Longrightarrow> h \<in> set (keys t)"
  by (cases "map_of t h") (simp_all add: bucket_def keys_iff_map_of)

lemma check_common_result:
  "set ks \<subseteq> set (keys k) \<inter> set (keys d) \<Longrightarrow>
   check_common ks k d =
     (if \<exists>key \<in> set ks. set (bucket k key) \<inter> set (bucket d key) \<noteq> {}
      then Inl DupeNotValidated else Inr ())"
proof (induction ks)
  case Nil
  then show ?case by simp
next
  case (Cons key ks)
  then obtain kb db where m: "map_of k key = Some kb" "map_of d key = Some db"
    by (auto simp: keys_iff_map_of)
  then have b: "bucket k key = kb" "bucket d key = db" by (simp_all add: bucket_def)
  show ?case using Cons m b by (simp add: getitem_def)
qed

lemma common_overlap:
  "(\<exists>key \<in> set [k \<leftarrow> keys kt. k \<in> set (keys dl)].
      set (bucket kt key) \<inter> set (bucket dl key) \<noteq> {}) =
   (\<exists>x. contains kt x \<and> contains dl x)"
proof
  assume "\<exists>key \<in> set [k \<leftarrow> keys kt. k \<in> set (keys dl)].
      set (bucket kt key) \<inter> set (bucket dl key) \<noteq> {}"
  then obtain key where "set (bucket kt key) \<inter> set (bucket dl key) \<noteq> {}" by (rule bexE)
  then obtain p where "p \<in> set (bucket kt key)" "p \<in> set (bucket dl key)" by blast
  then have "contains kt (key, p) \<and> contains dl (key, p)" by (simp add: contains_bucket)
  then show "\<exists>x. contains kt x \<and> contains dl x" by (rule exI)
next
  assume "\<exists>x. contains kt x \<and> contains dl x"
  then obtain x where x: "contains kt x" "contains dl x" by (elim exE conjE)
  then have p: "snd x \<in> set (bucket kt (fst x))" "snd x \<in> set (bucket dl (fst x))"
    by (simp_all add: contains_bucket)
  have "fst x \<in> set (keys kt)" "fst x \<in> set (keys dl)"
    using bucket_member_key[OF p(1)] bucket_member_key[OF p(2)] by this+
  then have 1: "fst x \<in> set [k \<leftarrow> keys kt. k \<in> set (keys dl)]" by simp
  have 2: "set (bucket kt (fst x)) \<inter> set (bucket dl (fst x)) \<noteq> {}" using p by blast
  from 1 2 show "\<exists>key \<in> set [k \<leftarrow> keys kt. k \<in> set (keys dl)].
      set (bucket kt key) \<inter> set (bucket dl key) \<noteq> {}" by (rule bexI[rotated])
qed

lemma exists_True_cases:
  "path_exists fs f = Inr True \<Longrightarrow> (\<exists>d. is_dir fs f = Inr d) \<and> (\<exists>l. is_symlink fs f = Inr l)"
  by (auto simp: path_exists_def is_dir_def is_symlink_def split: node.splits stat_result.splits)

lemma check_files_step:
  "check_files fs (g # gs) =
     (if passes fs g then check_files fs gs
      else if path_exists fs g = Inl OSError then Inl OSError
      else if path_exists fs g = Inr False then Inl DupeFileNotFound
      else if is_dir fs g = Inr True then Inl DupeIsDirectory
      else Inl DupeIsSymLink)"
proof (cases "path_exists fs g")
  case (Inl e)
  then have "e = OSError"
    by (auto simp: path_exists_def split: node.splits stat_result.splits)
  with Inl show ?thesis by (simp add: passes_def)
next
  case (Inr ex)
  show ?thesis
  proof (cases ex)
    case False
    with Inr show ?thesis by (simp add: passes_def)
  next
    case True
    with Inr have pe: "path_exists fs g = Inr True" by simp
    from exists_True_cases[OF pe] obtain d l where
      dl: "is_dir fs g = Inr d" "is_symlink fs g = Inr l" by blast
    with pe show ?thesis by (cases d; cases l) (simp_all add: passes_def)
  qed
qed

lemma check_files_Inr: "check_files fs gs = Inr u \<longleftrightarrow> list_all (passes fs) gs"
proof (induction gs)
  case Nil
  then show ?case by simp
next
  case (Cons g gs)
  then show ?case unfolding check_files_step by simp
qed

lemma check_files_Inl:
  "check_files fs gs = Inl e \<Longrightarrow>
   \<exists>pre f post. gs = pre @ f # post \<and> list_all (passes fs) pre \<and>
     ((e = OSError \<and> path_exists fs f = Inl OSError) \<or>
      (e = DupeFileNotFound \<and> path_exists fs f = Inr False) \<or>
      (e = DupeIsDirectory \<and> path_exists fs f = Inr True \<and> is_dir fs f = Inr True) \<or>
      (e = DupeIsSymLink \<and> path_exists fs f = Inr True \<and> is_dir fs f = Inr False \<and>
         is_symlink fs f = Inr True))"
proof (induction gs)
  case Nil
  then show ?case by simp
next
  case (Cons g gs)
  let ?Q = "\<lambda>f. (e = OSError \<and> path_exists fs f = Inl OSError) \<or>
      (e = DupeFileNotFound \<and> path_exists fs f = Inr False) \<or>
      (e = DupeIsDirectory \<and> path_exists fs f = Inr True \<and> is_dir fs f = Inr True) \<or>
      (e = DupeIsSymLink \<and> path_exists fs f = Inr True \<and> is_dir fs f = Inr False \<and>
         is_symlink fs f = Inr True)"
  show ?case
  proof (cases "passes fs g")
    case True
    with Cons.prems have "check_files fs gs = Inl e" unfolding check_files_step by simp
    from Cons.IH[OF this] obtain pre f post where
      h: "gs = pre @ f # post" "list_all (passes fs) pre" "?Q f" by blast
    then have "g # gs = (g # pre) @ f # post" "list_all (passes fs) (g # pre)"
      using True by simp_all
    with h(3) show ?thesis by blast
  next
    case False
    have q: "?Q g"
    proof (cases "path_exists fs g")
      case (Inl e')
      then have "e' = OSError"
        by (auto simp: path_exists_def split: node.splits stat_result.splits)
      with Inl Cons.prems False show ?thesis unfolding check_files_step by simp
    next
      case (Inr ex)
      show ?thesis
      proof (cases ex)
        case F: False
        with Inr Cons.prems False show ?thesis unfolding check_files_step by simp
      next
        case True
        with Inr have pe: "path_exists fs g = Inr True" by simp
        from exists_True_cases[OF pe] obtain d l where
          dl: "is_dir fs g = Inr d" "is_symlink fs g = Inr l" by blast
        with pe Cons.prems False show ?thesis unfolding check_files_step
          by (cases d; cases l) (simp_all add: passes_def)
      qed
    qed
    have "g # gs = [] @ g # gs" "list_all (passes fs) []" by simp_all
    with q show ?thesis by blast
  qed
qed

lemma len_chain_values: "len t = length (chain_values t)"
  by (induction t) (auto simp: len_def chain_values_def)

lemma check_common_overlap:
  "check_common [k \<leftarrow> keys kt. k \<in> set (keys dl)] kt dl =
     (if \<exists>x. contains kt x \<and> contains dl x then Inl DupeNotValidated else Inr ())"
proof -
  have sub: "set [k \<leftarrow> keys kt. k \<in> set (keys dl)] \<subseteq> set (keys kt) \<inter> set (keys dl)"
    by auto
  have "check_common [k \<leftarrow> keys kt. k \<in> set (keys dl)] kt dl =
     (if \<exists>key \<in> set [k \<leftarrow> keys kt. k \<in> set (keys dl)].
           set (bucket kt key) \<inter> set (bucket dl key) \<noteq> {}
      then Inl DupeNotValidated else Inr ())"
    by (rule check_common_result[OF sub])
  then show ?thesis by (simp only: common_overlap)
qed

lemma validate_cases:
  "validate fs dt =
     (if \<exists>x. contains (dt_keeptable dt) x \<and> contains (dt_deltable dt) x
      then Inl DupeNotValidated
      else check_files fs (chain_values (dt_keeptable dt) @ chain_values (dt_deltable dt)))"
proof (cases "\<exists>x. contains (dt_keeptable dt) x \<and> contains (dt_deltable dt) x")
  case True
  then have "check_common [k \<leftarrow> keys (dt_keeptable dt). k \<in> set (keys (dt_deltable dt))]
      (dt_keeptable dt) (dt_deltable dt) = Inl DupeNotValidated"
    by (simp only: check_common_overlap if_True)
  then have "validate fs dt = Inl DupeNotValidated" by (simp add: validate_def)
  then show ?thesis using True by (simp only: if_True)
next
  case False
  then have "check_common [k \<leftarrow> keys (dt_keeptable dt). k \<in> set (keys (dt_deltable dt))]
      (dt_keeptable dt) (dt_deltable dt) = Inr ()"
    by (simp only: check_common_overlap if_False)
  then have "validate fs dt =
      check_files fs (chain_values (dt_keeptable dt) @ chain_values (dt_deltable dt))"
    by (simp add: validate_def)
  then show ?thesis using False by (simp only: if_False)
qed

text \<open>
  Claim C8, as the code has it. When a file of the delete table does not exist, is a
  directory or is a symbolic link (existence and the directory test follow links),
  \<open>validate\<close> raises one error, and \<open>delete\<close> ends with that error and with the world it
  started from, whatever the per-file step and the commit do. The error is
  \<open>DupeNotValidated\<close> when the two tables contain a common pair. When they contain none,
  it is the error of the first file, the keep table's files coming before the delete
  table's, that does not pass the tests: \<open>OSError\<close> when \<open>exists\<close> raises it,
  \<open>DupeFileNotFound\<close> when the file does not exist, else \<open>DupeIsDirectory\<close> when it is
  a directory, else \<open>DupeIsSymLink\<close>.
\<close>

theorem validate_fails_closed:
  assumes "\<exists>f \<in> set (chain_values (dt_deltable dt)).
             path_exists (filesys w) f = Inr False \<or> is_dir (filesys w) f = Inr True \<or>
             is_symlink (filesys w) f = Inr True"
  shows "\<exists>e. validate (filesys w) dt = Inl e \<and> delete step commit dt w = (Some e, w) \<and>
           ((\<exists>x. contains (dt_keeptable dt) x \<and> contains (dt_deltable dt) x) \<longrightarrow>
              e = DupeNotValidated) \<and>
           (\<not> (\<exists>x. contains (dt_keeptable dt) x \<and> contains (dt_deltable dt) x) \<longrightarrow>
              (\<exists>pre f post.
                 chain_values (dt_keeptable dt) @ chain_values (dt_deltable dt) = pre @ f # post \<and>
                 list_all (passes (filesys w)) pre \<and>
                 ((e = OSError \<and> path_exists (filesys w) f = Inl OSError) \<or>
                  (e = DupeFileNotFound \<and> path_exists (filesys w) f = Inr False) \<or>
                  (e = DupeIsDirectory \<and> path_exists (filesys w) f = Inr True \<and>
                     is_dir (filesys w) f = Inr True) \<or>
                  (e = DupeIsSymLink \<and> path_exists (filesys w) f = Inr True \<and>
                     is_dir (filesys w) f = Inr False \<and> is_symlink (filesys w) f = Inr True))))"
proof -
  let ?gs = "chain_values (dt_keeptable dt) @ chain_values (dt_deltable dt)"
  let ?common = "[k \<leftarrow> keys (dt_keeptable dt). k \<in> set (keys (dt_deltable dt))]"
  let ?O = "\<exists>x. contains (dt_keeptable dt) x \<and> contains (dt_deltable dt) x"
  from assms obtain f where f: "f \<in> set (chain_values (dt_deltable dt))" "\<not> passes (filesys w) f"
    by (auto simp: passes_def)
  then have n: "len (dt_deltable dt) \<noteq> 0"
    by (auto simp: len_chain_values)
  have d: "delete step commit dt w = (Some e, w)" if "validate (filesys w) dt = Inl e" for e
    using that n by (simp add: delete_def)
  show ?thesis
  proof (cases ?O)
    case True
    then have v: "validate (filesys w) dt = Inl DupeNotValidated"
      by (simp only: validate_cases if_True)
    with d[OF v] True show ?thesis by blast
  next
    case False
    then have v: "validate (filesys w) dt = check_files (filesys w) ?gs"
      by (simp only: validate_cases if_False)
    have "\<not> list_all (passes (filesys w)) ?gs" using f by (auto simp: list_all_iff)
    then have "check_files (filesys w) ?gs \<noteq> Inr ()" by (simp add: check_files_Inr)
    then obtain e where e: "check_files (filesys w) ?gs = Inl e"
      by (cases "check_files (filesys w) ?gs") auto
    have ve: "validate (filesys w) dt = Inl e" using v e by simp
    from check_files_Inl[OF e] d[OF ve] ve False show ?thesis by blast
  qed
qed

theorem validate_fails_closed_witness:
  "(\<exists>f \<in> set (chain_values (dt_deltable
        \<lparr>dt_deltable = [(''H1'', [[''/'', ''a'', ''y'']])],
         dt_keeptable = [(''H1'', [[''/'', ''a'', ''x'']])], dt_deduped = True\<rparr>)).
      path_exists (\<lambda>f. if f = [''/'', ''a'', ''x''] then Plain Regular else Absent) f
        = Inr False) \<and>
   validate (\<lambda>f. if f = [''/'', ''a'', ''x''] then Plain Regular else Absent)
     \<lparr>dt_deltable = [(''H1'', [[''/'', ''a'', ''y'']])],
      dt_keeptable = [(''H1'', [[''/'', ''a'', ''x'']])], dt_deduped = True\<rparr>
     = Inl DupeFileNotFound \<and>
   delete (\<lambda>f w. (None, w\<lparr>filesys := (filesys w)(f := Absent)\<rparr>)) (\<lambda>w. w)
     \<lparr>dt_deltable = [(''H1'', [[''/'', ''a'', ''y'']])],
      dt_keeptable = [(''H1'', [[''/'', ''a'', ''x'']])], dt_deduped = True\<rparr>
     \<lparr>filesys = (\<lambda>f. if f = [''/'', ''a'', ''x''] then Plain Regular else Absent),
      database = ()\<rparr>
     = (Some DupeFileNotFound,
        \<lparr>filesys = (\<lambda>f. if f = [''/'', ''a'', ''x''] then Plain Regular else Absent),
         database = ()\<rparr>)"
proof -
  let ?dt = "\<lparr>dt_deltable = [(''H1'', [[''/'', ''a'', ''y'']])],
      dt_keeptable = [(''H1'', [[''/'', ''a'', ''x'']])], dt_deduped = True\<rparr>"
  let ?fs = "\<lambda>f. if f = [''/'', ''a'', ''x''] then Plain Regular else Absent"
  let ?w = "\<lparr>filesys = ?fs, database = ()\<rparr>"
  let ?step = "\<lambda>f w. (None, w\<lparr>filesys := (filesys w)(f := Absent)\<rparr>)"
  have p: "path_exists ?fs [''/'', ''a'', ''y''] = Inr False"
    by (simp add: path_exists_def node_of_def has_null_def)
  have b: "\<exists>f \<in> set (chain_values (dt_deltable ?dt)).
      path_exists (filesys ?w) f = Inr False \<or> is_dir (filesys ?w) f = Inr True \<or>
      is_symlink (filesys ?w) f = Inr True"
    using p by (simp add: chain_values_def)
  have v: "validate ?fs ?dt = Inl DupeFileNotFound"
    by (simp add: validate_def keys_def chain_values_def path_exists_def is_dir_def
        is_symlink_def getitem_def node_of_def has_null_def)
  from validate_fails_closed[OF b, of ?step "\<lambda>w. w"] v
  have "delete ?step (\<lambda>w. w) ?dt ?w = (Some DupeFileNotFound, ?w)" by auto
  moreover have "\<exists>f \<in> set (chain_values (dt_deltable ?dt)). path_exists ?fs f = Inr False"
    using p by (simp add: chain_values_def)
  ultimately show ?thesis using v by blast
qed

text \<open>
  The claim as written fails: a symbolic link to a directory in the delete table is a
  symbolic link, and \<open>validate\<close> raises \<open>DupeIsDirectory\<close> for it, not \<open>DupeIsSymLink\<close>.
\<close>

theorem validate_symlink_to_directory:
  "is_symlink (\<lambda>f. if f = [''/'', ''a'', ''l''] then Symlink (Stat_Kind Directory) else Absent)
      [''/'', ''a'', ''l''] = Inr True \<and>
   validate (\<lambda>f. if f = [''/'', ''a'', ''l''] then Symlink (Stat_Kind Directory) else Absent)
      \<lparr>dt_deltable = [(''H1'', [[''/'', ''a'', ''l'']])], dt_keeptable = [], dt_deduped = True\<rparr>
     = Inl DupeIsDirectory"
  by (simp add: is_symlink_def validate_def keys_def chain_values_def path_exists_def is_dir_def
      node_of_def has_null_def)

section \<open>Properties of the partition algorithm\<close>

text \<open>
  Claim C2. The code does not return normally on every index whose hashes have two
  distinct paths each: with one copy inside \<open>/a\<close> and one outside, a pattern that
  matches nothing, \<open>match_deletions\<close> and \<open>dupes_global\<close> both false and \<open>autoselect\<close>
  true, the lone unmatched copy is moved to \<open>keeptable\<close> and discarded from it again,
  which pops the hash, and the lookup \<open>keeptable[hsh]\<close> of the assertion raises
  \<open>KeyError\<close>.
\<close>

theorem dd3_lone_local_copy_raises:
  "dd3 [(''H1'', [[''/'', ''a'', ''x''], [''/'', ''b'', ''z'']])] [''/'', ''a'']
     search_a_caret False False True = Inl KeyError"
  by code_simp

subsection \<open>Tables, buckets and the loops\<close>

lemma table_ok_Nil: "table_ok []"
  by (simp add: table_ok_def)

lemma table_ok_map_of_nonempty: "table_ok t \<Longrightarrow> map_of t h = Some b \<Longrightarrow> b \<noteq> []"
  by (auto simp: table_ok_def dest!: map_of_SomeD) (metis imageI snd_conv)

lemma table_ok_key_iff: "table_ok t \<Longrightarrow> h \<in> set (keys t) \<longleftrightarrow> bucket t h \<noteq> []"
  by (auto simp: keys_iff_map_of bucket_def dest: table_ok_map_of_nonempty split: option.splits)

lemma set_update_subset: "set (AList.update k v t) \<subseteq> insert (k, v) (set t)"
  by (induction t) auto

lemma table_ok_update: "table_ok t \<Longrightarrow> b \<noteq> [] \<Longrightarrow> table_ok (AList.update h b t)"
  unfolding table_ok_def using set_update_subset[of h b t]
  by (auto simp: distinct_update)

lemma set_delete_subset: "set (AList.delete k t) \<subseteq> set t"
  by (auto simp: AList.delete_eq)

lemma table_ok_delete: "table_ok t \<Longrightarrow> table_ok (AList.delete h t)"
  unfolding table_ok_def using set_delete_subset[of h t]
  by (auto simp: distinct_delete)

lemma map_of_add: "map_of (add (h, p) t) = (map_of t)(h \<mapsto> bucket t h @ [p])"
  by (auto simp: add_def bucket_def update_conv' split: option.splits)

lemma bucket_add: "bucket (add (h, p) t) x = (if x = h then bucket t h @ [p] else bucket t x)"
  by (simp add: bucket_def map_of_add)

lemma table_ok_add: "table_ok t \<Longrightarrow> table_ok (add x t)"
  by (cases x) (auto simp: add_def table_ok_update split: option.splits)

lemma table_ok_fold_add: "table_ok t \<Longrightarrow> table_ok (fold add xs t)"
  by (induction xs arbitrary: t) (auto simp: table_ok_add)

lemma paths_of_Nil: "paths_of h [] = []"
  by (simp add: paths_of_def)

lemma paths_of_Cons:
  "paths_of h ((k, p) # xs) = (if k = h then p # paths_of h xs else paths_of h xs)"
  by (simp add: paths_of_def)
lemma paths_of_append: "paths_of h (xs @ ys) = paths_of h xs @ paths_of h ys"
  by (simp add: paths_of_def)

lemma bucket_fold_add: "bucket (fold add xs t) h = bucket t h @ paths_of h xs"
proof (induction xs arbitrary: t)
  case Nil
  then show ?case by (simp add: paths_of_Nil)
next
  case (Cons x xs)
  obtain k p where x: "x = (k, p)" by (cases x)
  show ?case using Cons[of "add x t"] by (simp add: x bucket_add paths_of_Cons)
qed

lemma bucket_Nil: "bucket [] h = []"
  by (simp add: bucket_def)

lemma split_by_fold:
  "split_by P xs (a, b) = (fold add (filter P xs) a, fold add (filter (\<lambda>x. \<not> P x) xs) b)"
  by (induction xs arbitrary: a b) auto

lemma paths_of_iter: "distinct (map fst t) \<Longrightarrow> paths_of h (iter t) = bucket t h"
proof (induction t)
  case Nil
  then show ?case by (simp add: iter_Nil paths_of_Nil bucket_Nil)
next
  case (Cons a t)
  obtain k b where a: "a = (k, b)" by (cases a)
  have 1: "paths_of h (map (Pair k) b) = (if k = h then b else [])"
    by (induction b) (auto simp: paths_of_Nil paths_of_Cons)
  have 2: "k = h \<Longrightarrow> bucket t h = []" using Cons.prems a
    by (auto simp: bucket_def split: option.splits dest!: map_of_SomeD) force
  show ?case using Cons a 1 2 by (auto simp: iter_Cons paths_of_append bucket_def)
qed

lemma paths_of_filter_snd:
  "paths_of h (filter (\<lambda>(k, f). q f) xs) = filter q (paths_of h xs)"
  by (induction xs) (auto simp: paths_of_Nil paths_of_Cons)

lemma map_of_ldel: "map_of (ldel ks t) h = (if h \<in> set ks then None else map_of t h)"
proof (induction ks arbitrary: t)
  case Nil
  then show ?case by (simp add: ldel_def)
next
  case (Cons k ks)
  have s: "ldel (k # ks) t = ldel ks (if k \<in> set (keys t) then AList.delete k t else t)"
    by (simp add: ldel_def)
  show ?case unfolding s using Cons[of "if k \<in> set (keys t) then AList.delete k t else t"]
    by (auto simp: delete_conv' keys_iff_map_of)
qed

lemma table_ok_ldel: "table_ok t \<Longrightarrow> table_ok (ldel ks t)"
proof (induction ks arbitrary: t)
  case Nil
  then show ?case by (simp add: ldel_def)
next
  case (Cons k ks)
  have s: "ldel (k # ks) t = ldel ks (if k \<in> set (keys t) then AList.delete k t else t)"
    by (simp add: ldel_def)
  show ?case unfolding s using Cons by (auto simp: table_ok_delete)
qed

lemma bucket_ldel: "bucket (ldel ks t) h = (if h \<in> set ks then [] else bucket t h)"
  by (simp add: bucket_def map_of_ldel)

lemma bucket_ior: "distinct (map fst other) \<Longrightarrow>
    bucket (ior t other) h = bucket t h @ bucket other h"
  by (simp add: ior_def bucket_fold_add paths_of_iter)

lemma table_ok_ior: "table_ok t \<Longrightarrow> table_ok (ior t other)"
  by (simp add: ior_def table_ok_fold_add)

lemma table_ok_distinct: "table_ok t \<Longrightarrow> distinct (map fst t)"
  by (simp add: table_ok_def)

lemma scope_split_props:
  assumes "scope_split dupes deldir = (i, out)"
  shows "table_ok i" "table_ok out"
    "bucket i h = filter (\<lambda>f. is_relative_to f deldir) (paths_of h (iter dupes))"
    "mset (bucket out h) \<subseteq># mset (filter (\<lambda>f. \<not> is_relative_to f deldir) (paths_of h (iter dupes)))"
proof -
  let ?P = "\<lambda>(hsh, f). is_relative_to f deldir"
  let ?i = "fold add (filter ?P (iter dupes)) []"
  let ?o = "fold add (filter (\<lambda>x. \<not> ?P x) (iter dupes)) []"
  let ?ks = "[k \<leftarrow> keys ?o. k \<notin> set (keys ?i)]"
  have e: "i = ?i" "out = ldel ?ks ?o"
    using assms by (auto simp: scope_split_def split_by_fold)
  show "table_ok i" "table_ok out" by (simp_all add: e table_ok_fold_add table_ok_Nil table_ok_ldel)
  show "bucket i h = filter (\<lambda>f. is_relative_to f deldir) (paths_of h (iter dupes))"
    by (simp add: e bucket_fold_add bucket_Nil paths_of_filter_snd)
  have n: "(\<lambda>x. \<not> ?P x) = (\<lambda>(hsh, f). \<not> is_relative_to f deldir)" by auto
  have "bucket ?o h = filter (\<lambda>f. \<not> is_relative_to f deldir) (paths_of h (iter dupes))"
    unfolding n by (simp add: bucket_fold_add bucket_Nil paths_of_filter_snd)
  then show "mset (bucket out h) \<subseteq>#
      mset (filter (\<lambda>f. \<not> is_relative_to f deldir) (paths_of h (iter dupes)))"
    unfolding e bucket_ldel by simp
qed

lemma pattern_split_props:
  assumes "pattern_split pat i = (m, n)" "table_ok i"
  shows "table_ok m" "table_ok n"
    "bucket m h = filter (\<lambda>f. pat (name f)) (bucket i h)"
    "bucket n h = filter (\<lambda>f. \<not> pat (name f)) (bucket i h)"
proof -
  let ?P = "\<lambda>(hsh, f). pat (name f)"
  have n: "(\<lambda>x. \<not> ?P x) = (\<lambda>(hsh, f). \<not> pat (name f))" by auto
  have e: "m = fold add (filter ?P (iter i)) []" "n = fold add (filter (\<lambda>x. \<not> ?P x) (iter i)) []"
    using assms by (simp_all add: pattern_split_def split_by_fold)
  show "table_ok m" "table_ok n" by (simp_all add: e table_ok_fold_add table_ok_Nil)
  have d: "distinct (map fst i)" using assms(2) by (rule table_ok_distinct)
  show "bucket m h = filter (\<lambda>f. pat (name f)) (bucket i h)"
    by (simp add: e bucket_fold_add bucket_Nil paths_of_filter_snd paths_of_iter[OF d])
  show "bucket n h = filter (\<lambda>f. \<not> pat (name f)) (bucket i h)"
    unfolding e n by (simp add: bucket_fold_add bucket_Nil paths_of_filter_snd paths_of_iter[OF d])
qed

lemma drop_singles_props:
  "distinct ks \<Longrightarrow> set ks \<subseteq> set (keys d) \<Longrightarrow>
   \<exists>d'. drop_singles ks d = Inr d' \<and>
     (\<forall>h. map_of d' h = (if h \<in> set ks \<and> length (bucket d h) = 1 then None else map_of d h)) \<and>
     (table_ok d \<longrightarrow> table_ok d')"
proof (induction ks arbitrary: d)
  case Nil
  then show ?case by simp
next
  case (Cons key ks)
  from Cons.prems obtain b where b: "map_of d key = Some b"
    by (auto simp: keys_iff_map_of)
  then have bb: "bucket d key = b" by (simp add: bucket_def)
  show ?case
  proof (cases "length b = 1")
    case True
    let ?d1 = "AList.delete key d"
    have s: "drop_singles (key # ks) d = drop_singles ks ?d1"
      using b True Cons.prems by (simp add: getitem_def delitem_def)
    have sub: "set ks \<subseteq> set (keys ?d1)"
      using Cons.prems by (auto simp: keys_iff_map_of delete_conv')
    from Cons.IH[OF _ sub] Cons.prems(1) obtain d' where d':
      "drop_singles ks ?d1 = Inr d'"
      "\<forall>h. map_of d' h = (if h \<in> set ks \<and>
          length (bucket ?d1 h) = 1 then None else map_of ?d1 h)"
      "table_ok ?d1 \<longrightarrow> table_ok d'" by auto
    have "\<forall>h. map_of d' h = (if h \<in> set (key # ks) \<and>
        length (bucket d h) = 1 then None else map_of d h)"
      using d'(2) True bb Cons.prems(1) by (auto simp: bucket_def delete_conv')
    then show ?thesis using s d'(1) d'(3) by (auto simp: table_ok_delete)
  next
    case False
    have s: "drop_singles (key # ks) d = drop_singles ks d"
      using b False by (simp add: getitem_def)
    from Cons.IH[of d] Cons.prems obtain d' where d':
      "drop_singles ks d = Inr d'"
      "\<forall>h. map_of d' h = (if h \<in> set ks \<and> length (bucket d h) = 1 then None else map_of d h)"
      "table_ok d \<longrightarrow> table_ok d'" by auto
    have "\<forall>h. map_of d' h = (if h \<in> set (key # ks) \<and>
        length (bucket d h) = 1 then None else map_of d h)"
      using d'(2) False bb by auto
    then show ?thesis using s d'(1) d'(3) by auto
  qed
qed

lemma select_local_props:
  assumes "table_ok m"
  shows "\<exists>d0. select_tables m n out True False = Inr (d0, n) \<and> table_ok d0 \<and>
     (\<forall>h. map_of d0 h = (if map_of n h = None \<and>
         length (bucket m h) = 1 then None else map_of m h))"
proof -
  let ?ks = "[k \<leftarrow> keys m. k \<notin> set (keys n)]"
  have "distinct ?ks" using assms by (simp add: table_ok_def keys_def)
  moreover have "set ?ks \<subseteq> set (keys m)" by auto
  ultimately obtain d' where d': "drop_singles ?ks m = Inr d'"
     "\<forall>h. map_of d' h = (if h \<in> set ?ks \<and> length (bucket m h) = 1 then None else map_of m h)"
     "table_ok m \<longrightarrow> table_ok d'"
    using drop_singles_props[of ?ks m] by blast
  have "\<forall>h. map_of d' h = (if map_of n h = None \<and>
      length (bucket m h) = 1 then None else map_of m h)"
  proof
    fix h
    show "map_of d' h = (if map_of n h = None \<and>
        length (bucket m h) = 1 then None else map_of m h)"
      using d'(2)[rule_format, of h]
      by (auto simp: keys_iff_map_of bucket_def split: option.splits)
  qed
  then show ?thesis using d' assms by (simp add: select_tables_def)
qed

lemma dd3_tables_local:
  assumes "scope_split dupes deldir = (i, out)" "pattern_split pat i = (m, n)"
  shows "\<exists>d0. dd3_tables dupes deldir pat True False = Inr (d0, n) \<and> table_ok d0 \<and> table_ok n \<and>
     (\<forall>h. map_of d0 h = (if map_of n h = None \<and>
         length (bucket m h) = 1 then None else map_of m h))"
proof -
  have "table_ok i" using scope_split_props(1)[OF assms(1)] .
  then have "table_ok m" "table_ok n" using pattern_split_props[OF assms(2)] by simp_all
  then show ?thesis using select_local_props[of m n out] assms by (auto simp: dd3_tables_def)
qed

lemma dd3_tables_props:
  "\<exists>d0 k0. dd3_tables dupes deldir pat md dg = Inr (d0, k0) \<and> table_ok d0 \<and> table_ok k0 \<and>
     (\<forall>h. mset (bucket d0 h) + mset (bucket k0 h) \<subseteq># mset (paths_of h (iter dupes)))"
proof -
  obtain i out where so: "scope_split dupes deldir = (i, out)" by (cases "scope_split dupes deldir")
  obtain m n where pm: "pattern_split pat i = (m, n)" by (cases "pattern_split pat i")
  note sp = scope_split_props[OF so]
  note pp = pattern_split_props[OF pm sp(1)]
  have mn: "mset (bucket m h) + mset (bucket n h) = mset (bucket i h)" for h
    by (simp add: pp(3,4))
  have io: "mset (bucket i h) + mset (bucket out h) \<subseteq># mset (paths_of h (iter dupes))" for h
  proof -
    let ?all = "paths_of h (iter dupes)"
    have "mset (bucket i h) + mset (bucket out h) \<subseteq>#
        mset (filter (\<lambda>f. is_relative_to f deldir) ?all) +
        mset (filter (\<lambda>f. \<not> is_relative_to f deldir) ?all)"
      using sp(4)[of h] unfolding sp(3) by (rule subset_mset.add_left_mono)
    also have "\<dots> = mset ?all" by simp
    finally show ?thesis .
  qed
  have i_all: "mset (bucket i h) \<subseteq># mset (paths_of h (iter dupes))" for h
    using io[of h] by (meson mset_subset_eq_add_left subset_mset.order_trans)
  have od: "distinct (map fst out)" using sp(2) by (rule table_ok_distinct)
  have mno: "mset (bucket m h) + mset (bucket n h) + mset (bucket out h) \<subseteq>#
      mset (paths_of h (iter dupes))" for h
    using io[of h] unfolding mn[of h, symmetric] .
  show ?thesis
  proof (cases md)
    case True
    show ?thesis
    proof (cases dg)
      case True
      have "dd3_tables dupes deldir pat md dg = Inr (m, ior n out)"
        using so pm \<open>md\<close> True by (simp add: dd3_tables_def select_tables_def)
      moreover have "mset (bucket m h) + mset (bucket (ior n out) h) \<subseteq>#
          mset (paths_of h (iter dupes))" for h
        using mno[of h] by (simp add: bucket_ior[OF od] ac_simps)
      ultimately show ?thesis using pp(1,2) table_ok_ior by blast
    next
      case False
      from dd3_tables_local[OF so pm] obtain d0 where d0:
        "dd3_tables dupes deldir pat True False = Inr (d0, n)" "table_ok d0" "table_ok n"
        "\<forall>h. map_of d0 h = (if map_of n h = None \<and>
            length (bucket m h) = 1 then None else map_of m h)"
        by blast
      have "mset (bucket d0 h) \<subseteq># mset (bucket m h)" for h
        using d0(4)[rule_format, of h] by (simp add: bucket_def)
      then have "mset (bucket d0 h) + mset (bucket n h) \<subseteq># mset (paths_of h (iter dupes))" for h
        using mn[of h] i_all[of h]
        by (metis subset_mset.add_right_mono subset_mset.order_trans)
      then show ?thesis using d0 \<open>md\<close> False by auto
    qed
  next
    case False
    show ?thesis
    proof (cases dg)
      case True
      have "dd3_tables dupes deldir pat md dg = Inr (ior n out, m)"
        using so pm \<open>\<not> md\<close> True by (simp add: dd3_tables_def select_tables_def)
      moreover have "mset (bucket (ior n out) h) + mset (bucket m h) \<subseteq>#
          mset (paths_of h (iter dupes))" for h
        using mno[of h] by (simp add: bucket_ior[OF od] ac_simps)
      ultimately show ?thesis using pp(1,2) table_ok_ior by blast
    next
      case False
      have "dd3_tables dupes deldir pat md dg = Inr (n, m)"
        using so pm \<open>\<not> md\<close> False by (simp add: dd3_tables_def select_tables_def)
      moreover have "mset (bucket n h) + mset (bucket m h) \<subseteq># mset (paths_of h (iter dupes))" for h
        using i_all[of h] mn[of h] by (simp add: ac_simps)
      ultimately show ?thesis using pp(1,2) by blast
    qed
  qed
qed

lemma select_first_find:
  "select_first pat h vs (d1, k1) =
     (case List.find (\<lambda>f. pat (name f)) vs of
        None \<Rightarrow> Inr (d1, k1)
      | Some f \<Rightarrow>
          (case discard (h, f) k1 of
             Inl e \<Rightarrow> Inl e
           | Inr k' \<Rightarrow>
               (case getitem k' h of
                  Inl e \<Rightarrow> Inl e
                | Inr b \<Rightarrow> if length b > 0 then Inr (add (h, f) d1, k') else Inl AssertionError)))"
  by (induction vs) auto

lemma find_Some_in: "List.find P xs = Some x \<Longrightarrow> x \<in> set xs \<and> P x"
  by (induction xs) (auto split: if_splits)

lemma autoselected_in: "autoselected pat b = Some f \<Longrightarrow> f \<in> set b \<and> pat (name f)"
  unfolding autoselected_def using find_Some_in[of "\<lambda>f. pat (name f)" "sort b" f] by simp

lemma autoselect_step_cases:
  assumes "map_of d h = Some b" "map_of old h = Some b"
  shows "autoselect_step pat old h (d, k) =
     (if h \<in> set (keys k) then Inr (d, k)
      else (case autoselected pat b of
              None \<Rightarrow> Inr (ldel [h] d, AList.update h b k)
            | Some f \<Rightarrow>
                if remove1 f b = [] then Inl KeyError
                else Inr (add (h, f) (ldel [h] d),
                          AList.update h (remove1 f b) (AList.update h b k))))"
proof (cases "h \<in> set (keys k)")
  case True
  then show ?thesis by (simp add: autoselect_step_def)
next
  case False
  then have kn: "map_of k h = None" by (simp add: keys_iff_map_of)
  let ?k1 = "AList.update h b k"
  have le: "lextend d h k = Inr ?k1" using assms(1) kn by (simp add: lextend_def)
  have st: "autoselect_step pat old h (d, k) = select_first pat h (sort b) (ldel [h] d, ?k1)"
    using False le assms(2) by (simp add: autoselect_step_def getitem_def)
  show ?thesis
  proof (cases "autoselected pat b")
    case None
    then show ?thesis using False st by (simp add: select_first_find autoselected_def)
  next
    case (Some f)
    then have fb: "f \<in> set b" using autoselected_in by blast
    have m1: "map_of ?k1 h = Some b" by (simp add: update_conv')
    show ?thesis
    proof (cases "remove1 f b = []")
      case True
      have "discard (h, f) ?k1 = Inr (AList.delete h ?k1)"
        using m1 fb True by (simp add: discard_def)
      moreover have "getitem (AList.delete h ?k1) h = Inl KeyError"
        by (simp add: getitem_def delete_conv')
      ultimately show ?thesis using False st Some True
        by (simp add: select_first_find autoselected_def)
    next
      case F: False
      have "discard (h, f) ?k1 = Inr (AList.update h (remove1 f b) ?k1)"
        using m1 fb F by (simp add: discard_def)
      moreover have "getitem (AList.update h (remove1 f b) ?k1) h = Inr (remove1 f b)"
        by (simp add: getitem_def update_conv')
      ultimately show ?thesis using False st Some F
        by (simp add: select_first_find autoselected_def)
    qed
  qed
qed

lemma step_maps:
  assumes "map_of d h = Some b" "map_of old h = Some b"
    and "autoselect_step pat old h (d, k) = Inr (d', k')"
  shows "\<forall>x. x \<noteq> h \<longrightarrow> map_of d' x = map_of d x \<and> map_of k' x = map_of k x"
    and "map_of k h \<noteq> None \<Longrightarrow> map_of d' h = map_of d h \<and> map_of k' h = map_of k h"
    and "map_of k h = None \<Longrightarrow>
          (case autoselected pat b of
             None \<Rightarrow> map_of d' h = None \<and> map_of k' h = Some b
           | Some f \<Rightarrow> map_of d' h = Some [f] \<and> map_of k' h = Some (remove1 f b) \<and>
               remove1 f b \<noteq> [])"
    and "table_ok d \<Longrightarrow> table_ok k \<Longrightarrow> table_ok d' \<and> table_ok k'"
proof -
  note c = autoselect_step_cases[OF assms(1,2), of pat k]
  show "\<forall>x. x \<noteq> h \<longrightarrow> map_of d' x = map_of d x \<and> map_of k' x = map_of k x"
    using assms(3) unfolding c
    by (auto simp: map_of_ldel map_of_add update_conv' split: if_splits option.splits)
  show "map_of k h \<noteq> None \<Longrightarrow> map_of d' h = map_of d h \<and> map_of k' h = map_of k h"
    using assms(3) unfolding c by (auto simp: keys_iff_map_of)
  show "map_of k h = None \<Longrightarrow>
          (case autoselected pat b of
             None \<Rightarrow> map_of d' h = None \<and> map_of k' h = Some b
           | Some f \<Rightarrow> map_of d' h = Some [f] \<and> map_of k' h = Some (remove1 f b) \<and>
               remove1 f b \<noteq> [])"
    using assms(3) unfolding c
    by (auto simp: keys_iff_map_of map_of_ldel map_of_add bucket_def update_conv'
        split: if_splits option.splits)
  show "table_ok d \<Longrightarrow> table_ok k \<Longrightarrow> table_ok d' \<and> table_ok k'"
  proof -
    assume w: "table_ok d" "table_ok k"
    have bne: "b \<noteq> []" using w(1) assms(1) by (rule table_ok_map_of_nonempty)
    show ?thesis using assms(3) w bne unfolding c
      by (auto simp: table_ok_ldel table_ok_add table_ok_update split: if_splits option.splits)
  qed
qed

lemma loop_effect:
  assumes "distinct hs"
    and "\<forall>x \<in> set hs. map_of d x = map_of old x \<and> map_of old x \<noteq> None"
    and "autoselect_loop pat old hs (d, k) = Inr (d', k')"
  shows "(x \<in> set hs \<and> map_of k x = None \<longrightarrow>
            (case autoselected pat (bucket old x) of
               None \<Rightarrow> map_of d' x = None \<and> map_of k' x = Some (bucket old x)
             | Some f \<Rightarrow> map_of d' x = Some [f] \<and> map_of k' x = Some (remove1 f (bucket old x)) \<and>
                 remove1 f (bucket old x) \<noteq> [])) \<and>
         (\<not> (x \<in> set hs \<and> map_of k x = None) \<longrightarrow>
            map_of d' x = map_of d x \<and> map_of k' x = map_of k x)"
  using assms
proof (induction hs arbitrary: d k)
  case Nil
  then show ?case by simp
next
  case (Cons h hs)
  from Cons.prems(2) obtain b where b: "map_of old h = Some b" "map_of d h = Some b" by auto
  then have bo: "bucket old h = b" by (simp add: bucket_def)
  from Cons.prems(3) obtain d1 k1 where
    s: "autoselect_step pat old h (d, k) = Inr (d1, k1)" and
    l: "autoselect_loop pat old hs (d1, k1) = Inr (d', k')"
    by (auto split: sum.splits)
  note sm = step_maps[OF b(2) b(1) s]
  have hn: "h \<notin> set hs" and dh: "distinct hs" using Cons.prems(1) by auto
  have pre: "\<forall>x \<in> set hs. map_of d1 x = map_of old x \<and> map_of old x \<noteq> None"
    using Cons.prems(2) sm(1) hn by auto
  note ih = Cons.IH[OF dh pre l]
  have k1h: "map_of k1 h \<noteq> None"
    using sm(2) sm(3) by (cases "map_of k h") (auto split: option.splits)
  show ?case
  proof (cases "x = h")
    case True
    have after: "map_of d' h = map_of d1 h \<and> map_of k' h = map_of k1 h"
      using ih hn k1h True by auto
    show ?thesis
    proof (cases "map_of k h")
      case None
      then show ?thesis using sm(3) after True bo by (auto split: option.splits)
    next
      case (Some a)
      then show ?thesis using sm(2) after True by auto
    qed
  next
    case False
    then have "map_of d1 x = map_of d x" "map_of k1 x = map_of k x" using sm(1) by auto
    then show ?thesis using ih False by auto
  qed
qed

lemma loop_wf:
  assumes "distinct hs"
    and "\<forall>x \<in> set hs. map_of d x = map_of old x \<and> map_of old x \<noteq> None"
    and "autoselect_loop pat old hs (d, k) = Inr (d', k')"
    and "table_ok d" "table_ok k"
  shows "table_ok d' \<and> table_ok k'"
  using assms
proof (induction hs arbitrary: d k)
  case Nil
  then show ?case by simp
next
  case (Cons h hs)
  from Cons.prems(2) obtain b where b: "map_of old h = Some b" "map_of d h = Some b" by auto
  from Cons.prems(3) obtain d1 k1 where
    s: "autoselect_step pat old h (d, k) = Inr (d1, k1)" and
    l: "autoselect_loop pat old hs (d1, k1) = Inr (d', k')"
    by (auto split: sum.splits)
  note sm = step_maps[OF b(2) b(1) s]
  have hn: "h \<notin> set hs" and dh: "distinct hs" using Cons.prems(1) by auto
  have pre: "\<forall>x \<in> set hs. map_of d1 x = map_of old x \<and> map_of old x \<noteq> None"
    using Cons.prems(2) sm(1) hn by auto
  have w: "table_ok d1" "table_ok k1" using sm(4) Cons.prems(4,5) by auto
  show ?case using Cons.IH[OF dh pre l w] .
qed

lemma loop_total:
  assumes "distinct hs"
    and "\<forall>x \<in> set hs. map_of d x = map_of old x \<and> map_of old x \<noteq> None"
    and "\<forall>x \<in> set hs. map_of k x = None \<longrightarrow>
           (case autoselected pat (bucket old x) of None \<Rightarrow> True
            | Some f \<Rightarrow> remove1 f (bucket old x) \<noteq> [])"
  shows "\<exists>d' k'. autoselect_loop pat old hs (d, k) = Inr (d', k')"
  using assms
proof (induction hs arbitrary: d k)
  case Nil
  then show ?case by simp
next
  case (Cons h hs)
  from Cons.prems(2) obtain b where b: "map_of old h = Some b" "map_of d h = Some b" by auto
  then have bo: "bucket old h = b" by (simp add: bucket_def)
  have "\<exists>d1 k1. autoselect_step pat old h (d, k) = Inr (d1, k1)"
    unfolding autoselect_step_cases[OF b(2) b(1)] using Cons.prems(3) bo
    by (auto simp: keys_iff_map_of split: option.splits)
  then obtain d1 k1 where s: "autoselect_step pat old h (d, k) = Inr (d1, k1)" by blast
  note sm = step_maps[OF b(2) b(1) s]
  have hn: "h \<notin> set hs" and dh: "distinct hs" using Cons.prems(1) by auto
  have pre: "\<forall>x \<in> set hs. map_of d1 x = map_of old x \<and> map_of old x \<noteq> None"
    using Cons.prems(2) sm(1) hn by auto
  have pre2: "\<forall>x \<in> set hs. map_of k1 x = None \<longrightarrow>
           (case autoselected pat (bucket old x) of None \<Rightarrow> True
            | Some f \<Rightarrow> remove1 f (bucket old x) \<noteq> [])"
    using Cons.prems(3) sm(1) hn by auto
  from Cons.IH[OF dh pre pre2] s show ?case by simp
qed

lemma cas_pre:
  assumes "table_ok d0"
  shows "distinct (sort (keys d0))"
    "\<forall>x \<in> set (sort (keys d0)). map_of d0 x = map_of d0 x \<and> map_of d0 x \<noteq> None"
  using assms by (simp_all add: table_ok_def keys_def map_of_eq_None_iff)

lemma cas_effect:
  assumes "table_ok d0" "check_and_autoselect d0 k0 pat = Inr (d, k)"
  shows "(x \<in> set (keys d0) \<and> x \<notin> set (keys k0) \<longrightarrow>
            (case autoselected pat (bucket d0 x) of
               None \<Rightarrow> map_of d x = None \<and> map_of k x = Some (bucket d0 x)
             | Some f \<Rightarrow> map_of d x = Some [f] \<and> map_of k x = Some (remove1 f (bucket d0 x)) \<and>
                 remove1 f (bucket d0 x) \<noteq> [])) \<and>
         (\<not> (x \<in> set (keys d0) \<and> x \<notin> set (keys k0)) \<longrightarrow>
            map_of d x = map_of d0 x \<and> map_of k x = map_of k0 x)"
proof -
  have l: "autoselect_loop pat d0 (sort (keys d0)) (d0, k0) = Inr (d, k)"
    using assms(2) by (simp add: check_and_autoselect_def)
  from loop_effect[OF cas_pre[OF assms(1)] l, of x]
  show ?thesis by (simp add: keys_iff_map_of)
qed

lemma cas_wf:
  assumes "table_ok d0" "table_ok k0" "check_and_autoselect d0 k0 pat = Inr (d, k)"
  shows "table_ok d \<and> table_ok k"
proof -
  have l: "autoselect_loop pat d0 (sort (keys d0)) (d0, k0) = Inr (d, k)"
    using assms(3) by (simp add: check_and_autoselect_def)
  from loop_wf[OF cas_pre[OF assms(1)] l assms(1,2)] show ?thesis .
qed

lemma cas_total:
  assumes "table_ok d0"
    and "\<forall>x \<in> set (keys d0). x \<notin> set (keys k0) \<longrightarrow>
           (case autoselected pat (bucket d0 x) of None \<Rightarrow> True
            | Some f \<Rightarrow> remove1 f (bucket d0 x) \<noteq> [])"
  shows "\<exists>d k. check_and_autoselect d0 k0 pat = Inr (d, k)"
proof -
  have "\<forall>x \<in> set (sort (keys d0)). map_of k0 x = None \<longrightarrow>
           (case autoselected pat (bucket d0 x) of None \<Rightarrow> True
            | Some f \<Rightarrow> remove1 f (bucket d0 x) \<noteq> [])"
    using assms(2) by (simp add: keys_iff_map_of)
  from loop_total[OF cas_pre[OF assms(1)] this] show ?thesis
    by (simp add: check_and_autoselect_def)
qed

lemma cas_conservation:
  assumes "table_ok d0" "check_and_autoselect d0 k0 pat = Inr (d, k)"
  shows "mset (bucket d x) + mset (bucket k x) = mset (bucket d0 x) + mset (bucket k0 x)"
proof (cases "x \<in> set (keys d0) \<and> x \<notin> set (keys k0)")
  case True
  then have k0x: "bucket k0 x = []" by (simp add: keys_iff_map_of bucket_def)
  show ?thesis
  proof (cases "autoselected pat (bucket d0 x)")
    case None
    with cas_effect[OF assms, of x] True have "map_of d x = None" "map_of k x = Some (bucket d0 x)"
      by auto
    then show ?thesis using k0x by (simp add: bucket_def)
  next
    case (Some f)
    with cas_effect[OF assms, of x] True
    have "map_of d x = Some [f]" "map_of k x = Some (remove1 f (bucket d0 x))" by auto
    moreover have "f \<in> set (bucket d0 x)" using Some autoselected_in by blast
    ultimately show ?thesis using k0x by (simp add: bucket_def)
  qed
next
  case False
  with cas_effect[OF assms, of x] show ?thesis by (simp add: bucket_def)
qed

lemma distinct_paths_of: "distinct xs \<Longrightarrow> distinct (paths_of h xs)"
  unfolding paths_of_def by (auto simp: distinct_map inj_on_def prod_eq_iff)

lemma set_iter_bucket: "distinct (map fst t) \<Longrightarrow> set (iter t) = {(h, p). p \<in> set (bucket t h)}"
proof -
  assume d: "distinct (map fst t)"
  have "(\<exists>b. (h, b) \<in> set t \<and> p \<in> set b) \<longleftrightarrow> p \<in> set (bucket t h)" for h p
  proof
    assume "\<exists>b. (h, b) \<in> set t \<and> p \<in> set b"
    then obtain b where "(h, b) \<in> set t" "p \<in> set b" by blast
    then have "map_of t h = Some b" using d by simp
    then show "p \<in> set (bucket t h)" using \<open>p \<in> set b\<close> by (simp add: bucket_def)
  next
    assume "p \<in> set (bucket t h)"
    then obtain b where "map_of t h = Some b" "p \<in> set b"
      by (cases "map_of t h") (auto simp: bucket_def)
    then show "\<exists>b. (h, b) \<in> set t \<and> p \<in> set b" using map_of_SomeD by fast
  qed
  then show ?thesis by (auto simp: set_iter)
qed

lemma dd3_unfold:
  assumes "dd3_tables dupes deldir pat md dg = Inr (d0, k0)"
  shows "dd3 dupes deldir pat md dg as =
     check_and_autoselect d0 k0 (if as then search_dot else search_a_caret)"
  using assms by (simp add: dd3_def)

text \<open>
  Claim C1. For every duplicate index, that is a table in which no \<open>(hash, path)\<close> pair
  is repeated, and every scope directory, pattern and choice of the three flags, the
  delete table and the keep table that \<open>dd3\<close> returns share no \<open>(hash, path)\<close> pair.
  The hypothesis is the invariant of the duplicate index; \<open>add\<close> keeps a repetition it
  is given (see C6), so the tables of an input that repeats a pair may overlap.
\<close>

theorem dd3_keep_delete_disjoint:
  assumes "distinct (iter dupes)"
    and "dd3 dupes deldir pat match_deletions dupes_global autoselect = Inr (deltable, keeptable)"
  shows "set (iter deltable) \<inter> set (iter keeptable) = {}"
proof -
  from dd3_tables_props[of dupes deldir pat match_deletions dupes_global]
  obtain d0 k0 where t: "dd3_tables dupes deldir pat match_deletions dupes_global = Inr (d0, k0)"
    and w: "table_ok d0" "table_ok k0"
    and s: "\<forall>h. mset (bucket d0 h) + mset (bucket k0 h) \<subseteq># mset (paths_of h (iter dupes))"
    by blast
  let ?P = "if autoselect then search_dot else search_a_caret"
  have c: "check_and_autoselect d0 k0 ?P = Inr (deltable, keeptable)"
    using assms(2) dd3_unfold[OF t] by simp
  have wd: "table_ok deltable \<and> table_ok keeptable" using cas_wf[OF w c] .
  have disj: "set (bucket deltable h) \<inter> set (bucket keeptable h) = {}" for h
  proof (rule ccontr)
    assume "set (bucket deltable h) \<inter> set (bucket keeptable h) \<noteq> {}"
    then obtain p where p: "p \<in> set (bucket deltable h)" "p \<in> set (bucket keeptable h)" by blast
    have "1 \<le> count (mset (bucket deltable h)) p" "1 \<le> count (mset (bucket keeptable h)) p"
      using p by (simp_all add: count_greater_eq_one_iff)
    then have "2 \<le> count (mset (bucket deltable h) + mset (bucket keeptable h)) p"
      unfolding count_union by linarith
    also have "\<dots> \<le> count (mset (paths_of h (iter dupes))) p"
      using s[rule_format, of h] unfolding cas_conservation[OF w(1) c, of h]
      by (rule mset_subset_eq_count)
    also have "\<dots> \<le> 1"
      using distinct_paths_of[OF assms(1), of h] by (simp add: distinct_count_atmost_1)
    finally show False by simp
  qed
  have "set (iter deltable) = {(h, p). p \<in> set (bucket deltable h)}"
    "set (iter keeptable) = {(h, p). p \<in> set (bucket keeptable h)}"
    using wd by (simp_all add: set_iter_bucket table_ok_distinct)
  then show ?thesis using disj by auto
qed

theorem dd3_keep_delete_disjoint_witness:
  "distinct (iter [(''H1'', [[''/'', ''a'', ''x''], [''/'', ''a'', ''y''],
      [''/'', ''b'', ''z'']]),
                   (''H2'', [[''/'', ''a'', ''p''], [''/'', ''a'', ''q'']])]) \<and>
   dd3 [(''H1'', [[''/'', ''a'', ''x''], [''/'', ''a'', ''y''], [''/'', ''b'', ''z'']]),
        (''H2'', [[''/'', ''a'', ''p''], [''/'', ''a'', ''q'']])]
     [''/'', ''a''] search_dot True True True
     = Inr ([(''H1'', [[''/'', ''a'', ''x''], [''/'', ''a'', ''y'']]), (''H2'',
         [[''/'', ''a'', ''p'']])],
            [(''H1'', [[''/'', ''b'', ''z'']]), (''H2'', [[''/'', ''a'', ''q'']])]) \<and>
   set (iter [(''H1'', [[''/'', ''a'', ''x''], [''/'', ''a'', ''y'']]), (''H2'',
       [[''/'', ''a'', ''p'']])]) \<inter>
   set (iter [(''H1'', [[''/'', ''b'', ''z'']]), (''H2'', [[''/'', ''a'', ''q'']])]) = {}"
proof -
  let ?dupes = "[(''H1'', [[''/'', ''a'', ''x''], [''/'', ''a'', ''y''],
      [''/'', ''b'', ''z'']]),
                 (''H2'', [[''/'', ''a'', ''p''], [''/'', ''a'', ''q'']])]"
  have d: "distinct (iter ?dupes)" by code_simp
  have r: "dd3 ?dupes [''/'', ''a''] search_dot True True True
     = Inr ([(''H1'', [[''/'', ''a'', ''x''], [''/'', ''a'', ''y'']]), (''H2'',
         [[''/'', ''a'', ''p'']])],
            [(''H1'', [[''/'', ''b'', ''z'']]), (''H2'', [[''/'', ''a'', ''q'']])])"
    by code_simp
  from dd3_keep_delete_disjoint[OF d r] d r show ?thesis by blast
qed

lemma autoselected_never: "autoselected search_a_caret b = None"
  by (simp add: autoselected_def search_a_caret_def find_None_iff)

lemma autoselected_Some_ex:
  "\<exists>f \<in> set b. pat (name f) \<Longrightarrow> \<exists>f. autoselected pat b = Some f"
  by (cases "autoselected pat b") (auto simp: autoselected_def find_None_iff)

text \<open>
  Claim C3. With autoselect disabled \<open>dd3\<close> returns for every input, and every hash of
  the returned delete table is a key of the returned keep table with a non-empty
  bucket; a hash that is in the delete table and not in the keep table when the safety
  pass starts leaves the delete table, and its whole delete bucket is its keep bucket.
\<close>

theorem dd3_no_autoselect_keeps_a_copy:
  "\<exists>d0 k0 deltable keeptable.
     dd3_tables dupes deldir pat match_deletions dupes_global = Inr (d0, k0) \<and>
     dd3 dupes deldir pat match_deletions dupes_global False = Inr (deltable, keeptable) \<and>
     (\<forall>h \<in> set (keys deltable). h \<in> set (keys keeptable) \<and> bucket keeptable h \<noteq> []) \<and>
     (\<forall>h \<in> set (keys d0). h \<notin> set (keys k0) \<longrightarrow>
        h \<notin> set (keys deltable) \<and> bucket keeptable h = bucket d0 h)"
proof -
  from dd3_tables_props[of dupes deldir pat match_deletions dupes_global]
  obtain d0 k0 where t: "dd3_tables dupes deldir pat match_deletions dupes_global = Inr (d0, k0)"
    and w: "table_ok d0" "table_ok k0"
    by blast
  have u: "dd3 dupes deldir pat match_deletions dupes_global False =
      check_and_autoselect d0 k0 search_a_caret"
    using dd3_unfold[OF t, of False] by simp
  have "\<exists>d k. check_and_autoselect d0 k0 search_a_caret = Inr (d, k)"
    by (rule cas_total[OF w(1)]) (simp add: autoselected_never)
  then obtain d k where c: "check_and_autoselect d0 k0 search_a_caret = Inr (d, k)" by blast
  note e = cas_effect[OF w(1) c]
  have wk: "table_ok k" using cas_wf[OF w c] by simp
  have 1: "h \<in> set (keys k) \<and> bucket k h \<noteq> []" if "h \<in> set (keys d)" for h
  proof -
    from that have dn: "map_of d h \<noteq> None" by (simp add: keys_iff_map_of)
    have "\<not> (h \<in> set (keys d0) \<and> h \<notin> set (keys k0))"
      using e[of h] dn by (auto simp: autoselected_never)
    with e[of h] dn have "map_of d0 h \<noteq> None" "map_of k h = map_of k0 h" by auto
    with \<open>\<not> (h \<in> set (keys d0) \<and> h \<notin> set (keys k0))\<close>
    have "h \<in> set (keys k)" by (simp add: keys_iff_map_of)
    then show ?thesis using table_ok_key_iff[OF wk] by simp
  qed
  have 2: "h \<notin> set (keys d) \<and>
      bucket k h = bucket d0 h" if "h \<in> set (keys d0)" "h \<notin> set (keys k0)" for h
    using e[of h] that by (simp add: autoselected_never keys_iff_map_of bucket_def)
  from t u c 1 2 show ?thesis by auto
qed

theorem dd3_no_autoselect_keeps_a_copy_witness:
  "dd3_tables [(''H1'', [[''/'', ''a'', ''x''], [''/'', ''a'', ''y''], [''/'', ''b'', ''z'']]),
      (''H2'', [[''/'', ''a'', ''p''],
      [''/'', ''a'', ''q'']])] [''/'', ''a''] search_dot True True
     = Inr ([(''H1'', [[''/'', ''a'', ''x''], [''/'', ''a'', ''y'']]), (''H2'',
         [[''/'', ''a'', ''p''], [''/'', ''a'', ''q'']])], [(''H1'',
         [[''/'', ''b'', ''z'']])]) \<and>
   dd3 [(''H1'', [[''/'', ''a'', ''x''], [''/'', ''a'', ''y''], [''/'', ''b'', ''z'']]),
       (''H2'', [[''/'', ''a'', ''p''],
       [''/'', ''a'', ''q'']])] [''/'', ''a''] search_dot True True False
     = Inr ([(''H1'', [[''/'', ''a'', ''x''], [''/'', ''a'', ''y'']])], [(''H1'',
         [[''/'', ''b'', ''z'']]), (''H2'', [[''/'', ''a'', ''p''], [''/'', ''a'', ''q'']])]) \<and>
   ''H1'' \<in> set (keys [(''H1'', [[''/'', ''a'', ''x''], [''/'', ''a'', ''y'']])]) \<and>
   ''H1'' \<in> set (keys [(''H1'', [[''/'', ''b'', ''z'']]), (''H2'', [[''/'', ''a'', ''p''],
       [''/'', ''a'', ''q'']])]) \<and>
   ''H2'' \<notin> set (keys [(''H1'', [[''/'', ''b'', ''z'']])]) \<and>
   ''H2'' \<notin> set (keys [(''H1'', [[''/'', ''a'', ''x''], [''/'', ''a'', ''y'']])]) \<and>
   bucket [(''H1'', [[''/'', ''b'', ''z'']]), (''H2'', [[''/'', ''a'', ''p''],
       [''/'', ''a'', ''q'']])] ''H2'' = [[''/'', ''a'', ''p''], [''/'', ''a'', ''q'']]"
proof -
  let ?dupes = "[(''H1'', [[''/'', ''a'', ''x''], [''/'', ''a'', ''y''],
      [''/'', ''b'', ''z'']]), (''H2'', [[''/'', ''a'', ''p''], [''/'', ''a'', ''q'']])]"
  let ?del_in = "[(''H1'', [[''/'', ''a'', ''x''], [''/'', ''a'', ''y'']]), (''H2'',
      [[''/'', ''a'', ''p''], [''/'', ''a'', ''q'']])]"
  let ?keep_in = "[(''H1'', [[''/'', ''b'', ''z'']])]"
  let ?del_out = "[(''H1'', [[''/'', ''a'', ''x''], [''/'', ''a'', ''y'']])]"
  let ?keep_out = "[(''H1'', [[''/'', ''b'', ''z'']]), (''H2'', [[''/'', ''a'', ''p''],
      [''/'', ''a'', ''q'']])]"
  have t: "dd3_tables ?dupes [''/'', ''a''] search_dot True True = Inr (?del_in, ?keep_in)"
    by code_simp
  have r: "dd3 ?dupes [''/'', ''a''] search_dot True True False = Inr (?del_out, ?keep_out)"
    by code_simp
  from dd3_no_autoselect_keeps_a_copy[of ?dupes "[''/'', ''a'']" search_dot True True]
  have a: "\<forall>h \<in> set (keys ?del_out). h \<in> set (keys ?keep_out) \<and> bucket ?keep_out h \<noteq> []"
    and b: "\<forall>h \<in> set (keys ?del_in). h \<notin> set (keys ?keep_in) \<longrightarrow>
        h \<notin> set (keys ?del_out) \<and> bucket ?keep_out h = bucket ?del_in h"
    unfolding t r by auto
  have i: "''H1'' \<in> set (keys ?del_out)" "''H2'' \<in> set (keys ?del_in)"
    "''H2'' \<notin> set (keys ?keep_in)"
    by (simp_all add: keys_def)
  from a i(1) have 1: "''H1'' \<in> set (keys ?keep_out)" by blast
  from b i(2,3) have 2: "''H2'' \<notin> set (keys ?del_out) \<and>
      bucket ?keep_out ''H2'' = bucket ?del_in ''H2''" by blast
  have 3: "bucket ?del_in ''H2'' = [[''/'', ''a'', ''p''],
      [''/'', ''a'', ''q'']]" by (simp add: bucket_def)
  from t r i 1 2 3 show ?thesis by simp
qed

text \<open>
  Claim C4, as the code has it. With autoselect enabled, whenever \<open>dd3\<close> returns, a hash
  that is in the delete table and not in the keep table when the safety pass starts,
  and that has a file whose name the pattern \<open>"."\<close> finds, ends with exactly one of its
  files in the delete table and all the remaining ones, at least one, in the keep table.
\<close>

theorem dd3_autoselect_deletes_one:
  assumes "dd3_tables dupes deldir pat match_deletions dupes_global = Inr (d0, k0)"
    and "dd3 dupes deldir pat match_deletions dupes_global True = Inr (deltable, keeptable)"
    and "h \<in> set (keys d0)" and "h \<notin> set (keys k0)"
    and "\<exists>f \<in> set (bucket d0 h). search_dot (name f)"
  shows "\<exists>f \<in> set (bucket d0 h).
           map_of deltable h = Some [f] \<and>
           map_of keeptable h = Some (remove1 f (bucket d0 h)) \<and>
           remove1 f (bucket d0 h) \<noteq> []"
proof -
  from dd3_tables_props[of dupes deldir pat match_deletions dupes_global] assms(1)
  have w: "table_ok d0" by auto
  have c: "check_and_autoselect d0 k0 search_dot = Inr (deltable, keeptable)"
    using assms(2) dd3_unfold[OF assms(1), of True] by simp
  from autoselected_Some_ex[OF assms(5)] obtain f
    where f: "autoselected search_dot (bucket d0 h) = Some f"
    by blast
  then have "f \<in> set (bucket d0 h)" using autoselected_in by blast
  moreover from cas_effect[OF w c, of h] assms(3,4) f
  have "map_of deltable h = Some [f] \<and> map_of keeptable h = Some (remove1 f (bucket d0 h)) \<and>
      remove1 f (bucket d0 h) \<noteq> []" by simp
  ultimately show ?thesis by blast
qed

theorem dd3_autoselect_deletes_one_witness:
  "dd3_tables [(''H1'', [[''/'', ''a'', ''x''], [''/'', ''a'', ''y''], [''/'', ''b'', ''z'']]),
      (''H2'', [[''/'', ''a'', ''p''],
      [''/'', ''a'', ''q'']])] [''/'', ''a''] search_dot True False
     = Inr ([(''H1'', [[''/'', ''a'', ''x''], [''/'', ''a'', ''y'']]), (''H2'',
         [[''/'', ''a'', ''p''], [''/'', ''a'', ''q'']])], []) \<and>
   dd3 [(''H1'', [[''/'', ''a'', ''x''], [''/'', ''a'', ''y''], [''/'', ''b'', ''z'']]),
       (''H2'', [[''/'', ''a'', ''p''],
       [''/'', ''a'', ''q'']])] [''/'', ''a''] search_dot True False True
     = Inr ([(''H1'', [[''/'', ''a'', ''x'']]), (''H2'', [[''/'', ''a'', ''p'']])], [(''H1'',
         [[''/'', ''a'', ''y'']]), (''H2'', [[''/'', ''a'', ''q'']])]) \<and>
   ''H2'' \<in> set (keys [(''H1'', [[''/'', ''a'', ''x''], [''/'', ''a'', ''y'']]), (''H2'',
       [[''/'', ''a'', ''p''], [''/'', ''a'', ''q'']])]) \<and>
   (\<exists>f \<in> set [[''/'', ''a'', ''p''], [''/'', ''a'', ''q'']]. search_dot (name f)) \<and>
   (\<exists>f \<in> set [[''/'', ''a'', ''p''], [''/'', ''a'', ''q'']].
      map_of [(''H1'', [[''/'', ''a'', ''x'']]), (''H2'',
          [[''/'', ''a'', ''p'']])] ''H2'' = Some [f] \<and>
      map_of [(''H1'', [[''/'', ''a'', ''y'']]), (''H2'',
          [[''/'', ''a'', ''q'']])] ''H2'' = Some (remove1 f [[''/'', ''a'', ''p''],
          [''/'', ''a'', ''q'']]))"
proof -
  let ?dupes = "[(''H1'', [[''/'', ''a'', ''x''], [''/'', ''a'', ''y''],
      [''/'', ''b'', ''z'']]), (''H2'', [[''/'', ''a'', ''p''], [''/'', ''a'', ''q'']])]"
  let ?del_in = "[(''H1'', [[''/'', ''a'', ''x''], [''/'', ''a'', ''y'']]), (''H2'',
      [[''/'', ''a'', ''p''], [''/'', ''a'', ''q'']])]"
  let ?del_out = "[(''H1'', [[''/'', ''a'', ''x'']]), (''H2'', [[''/'', ''a'', ''p'']])]"
  let ?keep_out = "[(''H1'', [[''/'', ''a'', ''y'']]), (''H2'', [[''/'', ''a'', ''q'']])]"
  have t: "dd3_tables ?dupes [''/'', ''a''] search_dot True False = Inr (?del_in,
      [])" by code_simp
  have r: "dd3 ?dupes [''/'', ''a''] search_dot True False True = Inr (?del_out, ?keep_out)"
    by code_simp
  have i: "''H2'' \<in> set (keys ?del_in)" by (simp add: keys_def)
  have n: "''H2'' \<notin> set (keys ([] :: (string, path) lutable))" by (simp add: keys_def)
  have bk: "bucket ?del_in ''H2'' = [[''/'', ''a'', ''p''],
      [''/'', ''a'', ''q'']]" by (simp add: bucket_def)
  have m: "\<exists>f \<in> set (bucket ?del_in ''H2''). search_dot (name f)"
    unfolding bk by code_simp
  from dd3_autoselect_deletes_one[OF t r i n m]
  have "\<exists>f \<in> set [[''/'', ''a'', ''p''], [''/'', ''a'', ''q'']].
      map_of ?del_out ''H2'' = Some [f] \<and>
          map_of ?keep_out ''H2'' = Some (remove1 f [[''/'', ''a'', ''p''],
          [''/'', ''a'', ''q'']])"
    unfolding bk by blast
  with t r i m show ?thesis unfolding bk by blast
qed

text \<open>
  The claim as written fails: of three copies that would all be deleted, one ends in
  the delete table and two, not one, in the keep table.
\<close>

theorem dd3_autoselect_keeps_two_of_three:
  "dd3_tables [(''H1'', [[''/'', ''a'', ''p''], [''/'', ''a'', ''q''],
      [''/'', ''a'', ''r'']])] [''/'', ''a''] search_dot True False = Inr ([(''H1'',
      [[''/'', ''a'', ''p''], [''/'', ''a'', ''q''], [''/'', ''a'', ''r'']])], []) \<and>
   dd3 [(''H1'', [[''/'', ''a'', ''p''], [''/'', ''a'', ''q''],
       [''/'', ''a'', ''r'']])] [''/'', ''a''] search_dot True False True
     = Inr ([(''H1'', [[''/'', ''a'', ''p'']])], [(''H1'', [[''/'', ''a'', ''q''],
         [''/'', ''a'', ''r'']])]) \<and>
   length (bucket [(''H1'', [[''/'', ''a'', ''q''], [''/'', ''a'', ''r'']])] ''H1'') = 2"
  by code_simp

text \<open>
  Claim C5, as the code has it. With autoselect enabled, whenever \<open>dd3\<close> returns, for a
  hash that is in the delete table and not in the keep table when the safety pass
  starts, the delete table ends with the single file that comes first, among those whose
  name the pattern \<open>"."\<close> finds, when the original delete bucket is sorted as paths,
  that is by the full path and component by component (and with no entry for the hash
  when the pattern finds no name).
\<close>

theorem dd3_autoselect_picks_first_sorted_path:
  assumes "dd3_tables dupes deldir pat match_deletions dupes_global = Inr (d0, k0)"
    and "dd3 dupes deldir pat match_deletions dupes_global True = Inr (deltable, keeptable)"
    and "h \<in> set (keys d0)" and "h \<notin> set (keys k0)"
  shows "map_of deltable h =
           map_option (\<lambda>f. [f]) (List.find (\<lambda>f. search_dot (name f)) (sort (bucket d0 h)))"
proof -
  from dd3_tables_props[of dupes deldir pat match_deletions dupes_global] assms(1)
  have w: "table_ok d0" by auto
  have c: "check_and_autoselect d0 k0 search_dot = Inr (deltable, keeptable)"
    using assms(2) dd3_unfold[OF assms(1), of True] by simp
  from cas_effect[OF w c, of h] assms(3,4) show ?thesis
    by (cases "autoselected search_dot (bucket d0 h)") (auto simp: autoselected_def)
qed

theorem dd3_autoselect_picks_first_sorted_path_witness:
  "dd3_tables [(''H1'', [[''/'', ''a'', ''y'', ''a''],
      [''/'', ''a'', ''x'', ''b'']])] [''/'', ''a''] search_dot True False = Inr ([(''H1'',
      [[''/'', ''a'', ''y'', ''a''], [''/'', ''a'', ''x'', ''b'']])], []) \<and>
   dd3 [(''H1'', [[''/'', ''a'', ''y'', ''a''],
       [''/'', ''a'', ''x'', ''b'']])] [''/'', ''a''] search_dot True False True
     = Inr ([(''H1'', [[''/'', ''a'', ''x'', ''b'']])], [(''H1'',
         [[''/'', ''a'', ''y'', ''a'']])]) \<and>
   ''H1'' \<in> set (keys [(''H1'', [[''/'', ''a'', ''y'', ''a''],
       [''/'', ''a'', ''x'', ''b'']])]) \<and>
   sort [[''/'', ''a'', ''y'', ''a''],
       [''/'', ''a'', ''x'', ''b'']] = [[''/'', ''a'', ''x'', ''b''],
       [''/'', ''a'', ''y'', ''a'']] \<and>
   map_of [(''H1'', [[''/'', ''a'', ''x'', ''b'']])] ''H1'' =
     map_option (\<lambda>f. [f]) (List.find (\<lambda>f. search_dot (name f)) (sort (bucket [(''H1'',
         [[''/'', ''a'', ''y'', ''a''], [''/'', ''a'', ''x'', ''b'']])] ''H1'')))"
proof -
  let ?dupes = "[(''H1'', [[''/'', ''a'', ''y'', ''a''], [''/'', ''a'', ''x'', ''b'']])]"
  have t: "dd3_tables ?dupes [''/'', ''a''] search_dot True False = Inr (?dupes,
      [])" by code_simp
  have r: "dd3 ?dupes [''/'', ''a''] search_dot True False True
     = Inr ([(''H1'', [[''/'', ''a'', ''x'', ''b'']])], [(''H1'',
         [[''/'', ''a'', ''y'', ''a'']])])" by code_simp
  have i: "''H1'' \<in> set (keys ?dupes)" by (simp add: keys_def)
  have n: "''H1'' \<notin> set (keys ([] :: (string, path) lutable))" by (simp add: keys_def)
  have s: "sort [[''/'', ''a'', ''y'', ''a''],
      [''/'', ''a'', ''x'', ''b'']] = [[''/'', ''a'', ''x'', ''b''],
      [''/'', ''a'', ''y'', ''a'']]" by code_simp
  from dd3_autoselect_picks_first_sorted_path[OF t r i n] t r i s show ?thesis by blast
qed

text \<open>
  The claim as written fails: by file name \<open>/a/y/a\<close> comes before \<open>/a/x/b\<close> (the stable
  sort by name leaves the bucket as it is), and the file moved to the delete table is
  \<open>/a/x/b\<close>, the first by full path.
\<close>

theorem dd3_autoselect_not_by_filename:
  "dd3_tables [(''H1'', [[''/'', ''a'', ''y'', ''a''],
      [''/'', ''a'', ''x'', ''b'']])] [''/'', ''a''] search_dot True False = Inr ([(''H1'',
      [[''/'', ''a'', ''y'', ''a''], [''/'', ''a'', ''x'', ''b'']])], []) \<and>
   sort_key name [[''/'', ''a'', ''y'', ''a''],
       [''/'', ''a'', ''x'', ''b'']] = [[''/'', ''a'', ''y'', ''a''],
       [''/'', ''a'', ''x'', ''b'']] \<and>
   dd3 [(''H1'', [[''/'', ''a'', ''y'', ''a''],
       [''/'', ''a'', ''x'', ''b'']])] [''/'', ''a''] search_dot True False True
     = Inr ([(''H1'', [[''/'', ''a'', ''x'', ''b'']])], [(''H1'',
         [[''/'', ''a'', ''y'', ''a'']])])"
  by code_simp

text \<open>
  Claim C7. In local-only mode (\<open>match_deletions\<close> true, \<open>dupes_global\<close> false), a hash
  that after pattern matching has exactly one file among the matches and none among the
  non-matches is removed from the delete table before the safety pass; \<open>dd3\<close> returns,
  and the hash is a key of neither returned table.
\<close>

theorem dd3_local_lone_copy_dropped:
  assumes "scope_split dupes deldir = (in_deldir, outside)"
    and "pattern_split pat in_deldir = (match_t, no_match_t)"
    and "h \<in> set (keys match_t)" and "h \<notin> set (keys no_match_t)"
    and "length (bucket match_t h) = 1"
  shows "\<exists>d0 k0 deltable keeptable.
           dd3_tables dupes deldir pat True False = Inr (d0, k0) \<and> h \<notin> set (keys d0) \<and>
           dd3 dupes deldir pat True False autoselect = Inr (deltable, keeptable) \<and>
           h \<notin> set (keys deltable) \<and> h \<notin> set (keys keeptable)"
proof -
  let ?P = "if autoselect then search_dot else search_a_caret"
  from dd3_tables_local[OF assms(1,2)] obtain d0 where
    t: "dd3_tables dupes deldir pat True False = Inr (d0, no_match_t)" and
    w: "table_ok d0" "table_ok no_match_t" and
    m: "\<forall>x. map_of d0 x = (if map_of no_match_t x = None \<and> length (bucket match_t x) = 1
          then None else map_of match_t x)"
    by blast
  have hd0: "map_of d0 h = None" using m assms(4,5) by (simp add: keys_iff_map_of)
  have tot: "\<forall>x \<in> set (keys d0). x \<notin> set (keys no_match_t) \<longrightarrow>
           (case autoselected ?P (bucket d0 x) of None \<Rightarrow> True
            | Some f \<Rightarrow> remove1 f (bucket d0 x) \<noteq> [])"
  proof (intro ballI impI)
    fix x assume x: "x \<in> set (keys d0)" "x \<notin> set (keys no_match_t)"
    then have "map_of d0 x \<noteq> None" "map_of no_match_t x = None" by (simp_all add: keys_iff_map_of)
    with m[rule_format, of x]
    have l: "length (bucket match_t x) \<noteq> 1" "map_of d0 x = map_of match_t x"
      by (auto split: if_splits)
    then have "bucket d0 x = bucket match_t x" by (simp add: bucket_def)
    moreover have "bucket d0 x \<noteq> []" using table_ok_key_iff[OF w(1)] x(1) by simp
    ultimately have "length (bucket d0 x) \<noteq> 0" "length (bucket d0 x) \<noteq> 1"
      using l(1) by simp_all
    then have "2 \<le> length (bucket d0 x)" by linarith
    then have "remove1 f (bucket d0 x) \<noteq> []" for f
      using length_remove1[of f "bucket d0 x"] by (auto split: if_splits)
    then show "case autoselected ?P (bucket d0 x) of None \<Rightarrow> True
            | Some f \<Rightarrow> remove1 f (bucket d0 x) \<noteq> []"
      by (simp split: option.splits)
  qed
  from cas_total[OF w(1) tot] obtain d k where
    c: "check_and_autoselect d0 no_match_t ?P = Inr (d, k)" by blast
  have "map_of d h = None \<and> map_of k h = None"
    using cas_effect[OF w(1) c, of h] hd0 assms(4) by (simp add: keys_iff_map_of)
  then have "h \<notin> set (keys d) \<and> h \<notin> set (keys k)" by (simp add: keys_iff_map_of)
  moreover have "dd3 dupes deldir pat True False autoselect = Inr (d, k)"
    using dd3_unfold[OF t, of autoselect] c by simp
  moreover have "h \<notin> set (keys d0)" using hd0 by (simp add: keys_iff_map_of)
  ultimately show ?thesis using t by blast
qed

theorem dd3_local_lone_copy_dropped_witness:
  "scope_split [(''H1'', [[''/'', ''a'', ''y''],
      [''/'', ''b'', ''z'']])] [''/'', ''a''] = ([(''H1'', [[''/'', ''a'', ''y'']])], [(''H1'',
      [[''/'', ''b'', ''z'']])]) \<and>
   pattern_split search_dot [(''H1'', [[''/'', ''a'', ''y'']])] = ([(''H1'',
       [[''/'', ''a'', ''y'']])], []) \<and>
   ''H1'' \<in> set (keys [(''H1'', [[''/'', ''a'', ''y'']])]) \<and>
   length (bucket [(''H1'', [[''/'', ''a'', ''y'']])] ''H1'') = 1 \<and>
   dd3_tables [(''H1'', [[''/'', ''a'', ''y''],
       [''/'', ''b'', ''z'']])] [''/'', ''a''] search_dot True False = Inr ([], []) \<and>
   dd3 [(''H1'', [[''/'', ''a'', ''y''],
       [''/'', ''b'', ''z'']])] [''/'', ''a''] search_dot True False True = Inr ([], [])"
proof -
  let ?dupes = "[(''H1'', [[''/'', ''a'', ''y''], [''/'', ''b'', ''z'']])]"
  let ?m = "[(''H1'', [[''/'', ''a'', ''y'']])]"
  have s: "scope_split ?dupes [''/'', ''a''] = (?m, [(''H1'',
      [[''/'', ''b'', ''z'']])])" by code_simp
  have p: "pattern_split search_dot ?m = (?m, [])" by code_simp
  have i: "''H1'' \<in> set (keys ?m)" by (simp add: keys_def)
  have n: "''H1'' \<notin> set (keys ([] :: (string, path) lutable))" by (simp add: keys_def)
  have l: "length (bucket ?m ''H1'') = 1" by (simp add: bucket_def)
  have t: "dd3_tables ?dupes [''/'', ''a''] search_dot True False = Inr ([], [])" by code_simp
  have r: "dd3 ?dupes [''/'', ''a''] search_dot True False True = Inr ([], [])" by code_simp
  from dd3_local_lone_copy_dropped[OF s p i n l, of True] s p i l t r show ?thesis by blast
qed

end
